theory Spec2Isabelle
  imports Main "HOL-Library.Word" "HOL-Library.Sublist"
begin

section \<open>Data model\<close>

text \<open>
  A byte of a Python \<open>bytes\<close> object is an 8-bit word. Python \<open>str\<close> values are
  modelled as \<open>string\<close>, a character being a code point below 256. The character
  classes, the case mappings and the encoding below are those of Python on these code
  points, with one gap: the upper-case forms of the code points 181, 223 and 255 (micro
  sign, sharp s, y with diaeresis) are no code points below 256, and \<open>upper\<close> leaves the
  three as they are. Theorems about what the resolver returns for a whole range of texts
  therefore leave out the texts that hold one of them (\<open>cased_below_256\<close>), or are about
  ASCII text (\<open>isascii\<close>). The only exception the modelled code raises is \<open>ValueError\<close>.
\<close>

type_synonym byte = "8 word"

datatype error = ValueError

subsection \<open>The string methods used by \<open>_parse_marker\<close>\<close>

definition isascii :: "string \<Rightarrow> bool" where
  "isascii s = list_all (\<lambda>c. (of_char c :: nat) < 128) s"


text \<open>
  \<open>str.isspace\<close>: tab to carriage return, the four separators 28..31, space, and above
  ASCII the next-line control 133 and the no-break space 160.
\<close>

definition isspace :: "char \<Rightarrow> bool" where
  "isspace c = (let n = (of_char c :: nat) in
     (9 \<le> n \<and> n \<le> 13) \<or> (28 \<le> n \<and> n \<le> 32) \<or> n = 133 \<or> n = 160)"

definition strip :: "string \<Rightarrow> string" where
  "strip s = rev (dropWhile isspace (rev (dropWhile isspace s)))"

text \<open>
  The cased letters below 256: \<open>a\<close>..\<open>z\<close> and 224..254 without the division sign 247 are
  lower case, 32 above their upper-case forms.
\<close>

definition upper_char :: "char \<Rightarrow> char" where
  "upper_char c = (let n = (of_char c :: nat) in
     if (97 \<le> n \<and> n \<le> 122) \<or> (224 \<le> n \<and> n \<le> 254 \<and> n \<noteq> 247) then char_of (n - 32)
     else c)"

definition lower_char :: "char \<Rightarrow> char" where
  "lower_char c = (let n = (of_char c :: nat) in
     if (65 \<le> n \<and> n \<le> 90) \<or> (192 \<le> n \<and> n \<le> 222 \<and> n \<noteq> 215) then char_of (n + 32)
     else c)"

definition upper :: "string \<Rightarrow> string" where
  "upper s = map upper_char s"

definition lower :: "string \<Rightarrow> string" where
  "lower s = map lower_char s"

definition startswith :: "string \<Rightarrow> string \<Rightarrow> bool" where
  "startswith s p = prefix p s"

text \<open>
  The characters \<open>str.isdigit\<close> accepts: the decimal digits \<open>0\<close>..\<open>9\<close>, and the superscript
  digits two, three and one (178, 179, 185), which are digits but no decimal digits.
\<close>

definition isdigit_char :: "char \<Rightarrow> bool" where
  "isdigit_char c = (let n = (of_char c :: nat) in
     (48 \<le> n \<and> n \<le> 57) \<or> n = 178 \<or> n = 179 \<or> n = 185)"

text \<open>\<open>str.isdigit\<close>: at least one character, and every character a digit.\<close>

definition isdigit :: "string \<Rightarrow> bool" where
  "isdigit s = (s \<noteq> [] \<and> list_all isdigit_char s)"

text \<open>
  \<open>str.encode('utf-8')\<close>: one byte for a code point below 128, two bytes for the others
  below 256.
\<close>

definition utf8_char :: "char \<Rightarrow> byte list" where
  "utf8_char c = (let n = (of_char c :: nat) in
     if n < 128 then [word_of_nat n]
     else [word_of_nat (192 + n div 64), word_of_nat (128 + n mod 64)])"

definition encode_utf8 :: "string \<Rightarrow> byte list" where
  "encode_utf8 s = concat (map utf8_char s)"

subsection \<open>The builtins \<open>int(text, base)\<close> and \<open>bytes([value])\<close>\<close>

text \<open>
  \<open>int\<close> skips the whitespace around the number (the C whitespace 9..13 and 32; in a
  \<open>str\<close> the whitespace above ASCII, 133 and 160, is first turned into spaces), reads an
  optional sign, for base 16 an optional \<open>0x\<close>/\<open>0X\<close> followed by at most one underscore,
  and then digits with single underscores between them. Anything else is a \<open>ValueError\<close>,
  a character above ASCII that is no whitespace included. The integers are unbounded, but
  the interpreter refuses to convert more than \<open>max_str_digits\<close> digits (4300 unless the
  program or its environment sets another limit, which this program does not do) when the
  base is no power of two: that, too, is a \<open>ValueError\<close>.
\<close>

definition c_isspace :: "char \<Rightarrow> bool" where
  "c_isspace c = (let n = (of_char c :: nat) in
     (9 \<le> n \<and> n \<le> 13) \<or> n = 32 \<or> n = 133 \<or> n = 160)"

definition digit_value :: "char \<Rightarrow> nat" where
  "digit_value c = (let n = (of_char c :: nat) in
     if 48 \<le> n \<and> n \<le> 57 then n - 48
     else if 97 \<le> n \<and> n \<le> 122 then n - 87
     else if 65 \<le> n \<and> n \<le> 90 then n - 55
     else 37)"

definition is_digit_or_underscore :: "nat \<Rightarrow> char \<Rightarrow> bool" where
  "is_digit_or_underscore base c = (digit_value c < base \<or> c = CHR ''_'')"

fun double_underscore :: "string \<Rightarrow> bool" where
  "double_underscore (a # b # r) = ((a = CHR ''_'' \<and> b = CHR ''_'') \<or> double_underscore (b # r))"
| "double_underscore _ = False"

definition digits_value :: "nat \<Rightarrow> string \<Rightarrow> nat" where
  "digits_value base ds = foldl (\<lambda>acc c. acc * base + digit_value c) 0 ds"

definition max_str_digits :: nat where
  "max_str_digits = 4300"

definition power_of_two_base :: "nat \<Rightarrow> bool" where
  "power_of_two_base base = (base = 2 \<or> base = 4 \<or> base = 8 \<or> base = 16 \<or> base = 32)"

definition py_int :: "nat \<Rightarrow> string \<Rightarrow> error + int" where
  "py_int base s =
     (let s1 = dropWhile c_isspace s;
          neg = prefix ''-'' s1;
          s2 = (if prefix ''+'' s1 \<or> prefix ''-'' s1 then drop 1 s1 else s1);
          s3 = (if base = 16 \<and> (prefix ''0x'' s2 \<or> prefix ''0X'' s2)
                then (let r = drop 2 s2 in if prefix ''_'' r then drop 1 r else r)
                else s2);
          body = takeWhile (is_digit_or_underscore base) s3;
          rest = dropWhile c_isspace (dropWhile (is_digit_or_underscore base) s3);
          digits = filter (\<lambda>c. c \<noteq> CHR ''_'') body
      in if body = [] \<or> hd body = CHR ''_'' \<or> last body = CHR ''_''
            \<or> double_underscore body \<or> rest \<noteq> []
            \<or> (\<not> power_of_two_base base \<and> max_str_digits < length digits)
         then Inl ValueError
         else Inr ((if neg then - 1 else 1) * int (digits_value base digits)))"

text \<open>\<open>bytes([v])\<close>: one byte when \<open>v\<close> is in \<open>range(0, 256)\<close>, a \<open>ValueError\<close> otherwise.\<close>

definition bytes1 :: "int \<Rightarrow> error + byte list" where
  "bytes1 v = (if 0 \<le> v \<and> v \<le> 255 then Inr [word_of_int v] else Inl ValueError)"

subsection \<open>\<open>SerialReaderThread._parse_marker\<close>\<close>

text \<open>
  The hexadecimal branch runs inside \<open>try ... except ValueError\<close>, so a failing \<open>int\<close>
  and a value that \<open>bytes\<close> refuses both give the encoded text. The decimal branch has
  no handler.
\<close>

definition parse_marker :: "string \<Rightarrow> error + byte list" where
  "parse_marker marker_str =
     (if marker_str = [] then Inr []
      else let marker_upper = upper (strip marker_str) in
        if marker_upper = ''STX'' then Inr [0x02]
        else if marker_upper = ''ETX'' then Inr [0x03]
        else if startswith (lower marker_upper) ''0x'' then
          (case py_int 16 marker_upper of
             Inl e \<Rightarrow> Inr (encode_utf8 marker_str)
           | Inr v \<Rightarrow> (case bytes1 v of
                        Inl e \<Rightarrow> Inr (encode_utf8 marker_str)
                      | Inr b \<Rightarrow> Inr b))
        else if isdigit marker_upper then
          (case py_int 10 marker_upper of
             Inl e \<Rightarrow> Inl e
           | Inr v \<Rightarrow> bytes1 v)
        else Inr (encode_utf8 marker_str))"

section \<open>The port reader: \<open>SerialReaderThread\<close>\<close>

subsection \<open>The \<open>bytes\<close> methods used by the framing code\<close>

text \<open>
  \<open>haystack.find(sub, start)\<close>: the lowest index from \<open>start\<close> on at which \<open>sub\<close> begins,
  \<open>None\<close> for Python's \<open>-1\<close>. An empty \<open>sub\<close> is found at \<open>start\<close> itself.
\<close>

primrec find_at :: "'a list \<Rightarrow> 'a list \<Rightarrow> nat \<Rightarrow> nat option" where
  "find_at sub [] k = (if sub = [] then Some k else None)"
| "find_at sub (x # xs) k = (if prefix sub (x # xs) then Some k else find_at sub xs (Suc k))"

definition bytes_find :: "'a list \<Rightarrow> 'a list \<Rightarrow> nat \<Rightarrow> nat option" where
  "bytes_find haystack sub start =
     (if length haystack < start then None else find_at sub (drop start haystack) start)"

text \<open>
  \<open>packet, rest = haystack.split(sep, 1)\<close>: an empty separator is a \<open>ValueError\<close>, and so
  is unpacking the single piece that comes back when the separator does not occur.
\<close>

definition bytes_split1 :: "'a list \<Rightarrow> 'a list \<Rightarrow> error + ('a list \<times> 'a list)" where
  "bytes_split1 haystack sep =
     (if sep = [] then Inl ValueError
      else case bytes_find haystack sep 0 of
             None \<Rightarrow> Inl ValueError
           | Some i \<Rightarrow> Inr (take i haystack, drop (i + length sep) haystack))"

subsection \<open>State and observable effects\<close>

text \<open>
  What a reader does to the outside is recorded, in order, in \<open>events\<close>: the
  \<open>data_received\<close> signal and the operations on its log file. A reader holds at most one
  log file at a time, so the events between one \<open>LogOpened\<close> and the next are that file's
  history. The six header writes are one \<open>Header\<close> entry; the clock readings inside header,
  footer and file name are left out. A file object stays in \<open>log_file\<close> after \<open>close()\<close>;
  writing to it then raises \<open>ValueError\<close>. The transport (\<open>serial_conn\<close>) and the operating
  system's own failures are outside the model.
\<close>

datatype log_text = Header string string int int | Message string | Footer

datatype event = DataReceived string string | LogOpened | LogWrote log_text | LogClosed

datatype log_handle = OpenFile | ClosedFile

record reader =
  port :: string
  baudrate :: int
  bytesize :: int
  is_running :: bool
  log_dir :: "string option"
  log_file :: "log_handle option"
  log_file_size :: nat
  source_label :: string
  buffer_enabled :: bool
  end_marker :: string
  start_marker :: string
  buffer :: "byte list"
  last_timestamp :: "string option"
  events :: "event list"

definition max_log_size :: nat where
  "max_log_size = 20 * 1024 * 1024"

definition max_buffer_size :: nat where
  "max_buffer_size = 1024 * 1024"

definition init_reader ::
  "string \<Rightarrow> int \<Rightarrow> int \<Rightarrow> string option \<Rightarrow> string \<Rightarrow> bool \<Rightarrow> string \<Rightarrow> string \<Rightarrow> reader" where
  "init_reader p baud bits dir label enabled end_m start_m =
     \<lparr>port = p, baudrate = baud, bytesize = bits, is_running = True, log_dir = dir,
      log_file = None, log_file_size = 0, source_label = label, buffer_enabled = enabled,
      end_marker = end_m, start_marker = start_m, buffer = [], last_timestamp = None,
      events = []\<rparr>"

subsection \<open>Rendering a packet\<close>

definition hex_digit :: "nat \<Rightarrow> char" where
  "hex_digit n = (if n < 10 then char_of (48 + n) else char_of (55 + n))"

definition hex_byte :: "byte \<Rightarrow> string" where
  "hex_byte b = [hex_digit (unat b div 16), hex_digit (unat b mod 16)]"

fun join :: "string \<Rightarrow> string list \<Rightarrow> string" where
  "join sep [] = []"
| "join sep [x] = x"
| "join sep (x # y # r) = x @ sep @ join sep (y # r)"

definition hex_data :: "byte list \<Rightarrow> string" where
  "hex_data packet = join '' '' (map hex_byte packet)"

definition format_packet_display :: "string \<Rightarrow> byte list \<Rightarrow> string" where
  "format_packet_display hex packet_bytes = hex"

definition timestamp_text :: "string option \<Rightarrow> string" where
  "timestamp_text t = (case t of None \<Rightarrow> ''None'' | Some s \<Rightarrow> s)"

definition render :: "string option \<Rightarrow> string \<Rightarrow> string \<Rightarrow> string" where
  "render t label shown = ''['' @ timestamp_text t @ ''] '' @ label @ '' '' @ shown @ [CHR 0x0A]"

subsection \<open>\<open>open_new_log_file\<close> and \<open>rotate_log_file\<close>\<close>

definition open_new_log_file :: "reader \<Rightarrow> error + reader" where
  "open_new_log_file st =
     (if log_dir st = None \<or> log_dir st = Some [] then Inr st
      else case log_file st of
             Some ClosedFile \<Rightarrow> Inl ValueError
           | _ \<Rightarrow>
              (let st1 = (if log_file st = None then st
                          else st\<lparr>events := events st @ [LogWrote Footer, LogClosed]\<rparr>)
               in Inr (st1\<lparr>log_file := Some OpenFile, log_file_size := 0,
                          events := events st1 @
                            [LogOpened,
                             LogWrote (Header (source_label st1) (port st1) (baudrate st1)
                                         (bytesize st1))]\<rparr>)))"

definition rotate_log_file :: "reader \<Rightarrow> error + reader" where
  "rotate_log_file st = open_new_log_file st"

subsection \<open>Publishing one packet: signal, log line, size check\<close>

text \<open>
  The three places of \<open>run\<close> that publish a packet repeat the same statements; they are
  one function here.
\<close>

definition log_message :: "reader \<Rightarrow> string \<Rightarrow> error + reader" where
  "log_message st message =
     (case log_file st of
        None \<Rightarrow> Inr st
      | Some ClosedFile \<Rightarrow> Inl ValueError
      | Some OpenFile \<Rightarrow>
         (let st1 = st\<lparr>events := events st @ [LogWrote (Message message)],
                       log_file_size := log_file_size st + length (encode_utf8 message)\<rparr>
          in if max_log_size \<le> log_file_size st1 then rotate_log_file st1 else Inr st1))"

definition emit_packet :: "reader \<Rightarrow> byte list \<Rightarrow> error + reader" where
  "emit_packet st packet =
     (let hex = hex_data packet;
          formatted_display = format_packet_display hex packet;
          message = render (last_timestamp st) (source_label st) formatted_display;
          st1 = st\<lparr>events := events st @ [DataReceived (source_label st) message]\<rparr>
      in log_message st1 message)"

subsection \<open>The framing loops of \<open>run\<close>\<close>

lemma find_at_bound: "find_at sub xs k = Some i \<Longrightarrow> k \<le> i \<and> i + length sub \<le> k + length xs"
proof (induction xs arbitrary: k)
  case Nil
  then show ?case by (simp split: if_splits)
next
  case (Cons x xs)
  show ?case
  proof (cases "prefix sub (x # xs)")
    case True
    with Cons.prems show ?thesis by (auto dest: prefix_length_le)
  next
    case False
    with Cons.prems have "find_at sub xs (Suc k) = Some i" by simp
    from Cons.IH[OF this] show ?thesis by simp
  qed
qed

lemma bytes_find_bound:
  "bytes_find h sub s = Some i \<Longrightarrow> s \<le> i \<and> i + length sub \<le> length h"
  unfolding bytes_find_def by (auto split: if_splits dest!: find_at_bound)

lemma open_new_log_file_buffer: "open_new_log_file st = Inr st' \<Longrightarrow> buffer st' = buffer st"
  by (auto simp: open_new_log_file_def Let_def split: if_splits option.splits log_handle.splits)

lemma log_message_buffer: "log_message st m = Inr st' \<Longrightarrow> buffer st' = buffer st"
  by (auto simp: log_message_def rotate_log_file_def Let_def
      split: if_splits option.splits log_handle.splits dest!: open_new_log_file_buffer)

lemma emit_packet_buffer: "emit_packet st p = Inr st' \<Longrightarrow> buffer st' = buffer st"
  by (auto simp: emit_packet_def Let_def dest!: log_message_buffer)

text \<open>
  Start/end framing, the \<open>while True\<close> loop. The loop is written as it stands in the
  source; \<open>None\<close> is the run that never leaves it.
\<close>

partial_function (option) frame_loop ::
  "byte list \<Rightarrow> byte list \<Rightarrow> reader \<Rightarrow> (error + reader) option" where
  "frame_loop start_byte end_byte st =
     (case bytes_find (buffer st) start_byte 0 of
        None \<Rightarrow> Some (Inr (st\<lparr>buffer := []\<rparr>))
      | Some start_index \<Rightarrow>
         (let st1 = (if 0 < start_index then st\<lparr>buffer := drop start_index (buffer st)\<rparr>
                     else st)
          in case bytes_find (buffer st1) end_byte (length start_byte) of
               None \<Rightarrow> Some (Inr st1)
             | Some end_index \<Rightarrow>
                (let end_index = end_index + length end_byte;
                     packet = take end_index (buffer st1);
                     st2 = st1\<lparr>buffer := drop end_index (buffer st1)\<rparr>
                 in case emit_packet st2 packet of
                      Inl e \<Rightarrow> Some (Inl e)
                    | Inr st3 \<Rightarrow> frame_loop start_byte end_byte st3)))"

declare frame_loop.simps [code]

text \<open>End-marker-only framing, the loop \<open>while end_byte in self.buffer\<close>.\<close>

function end_loop :: "byte list \<Rightarrow> reader \<Rightarrow> error + reader" where
  "end_loop end_byte st =
     (if bytes_find (buffer st) end_byte 0 \<noteq> None then
        (case bytes_split1 (buffer st) end_byte of
           Inl e \<Rightarrow> Inl e
         | Inr (packet, rest) \<Rightarrow>
            (case emit_packet (st\<lparr>buffer := rest\<rparr>) (packet @ end_byte) of
               Inl e \<Rightarrow> Inl e
             | Inr st' \<Rightarrow> end_loop end_byte st'))
      else Inr st)"
  by pat_completeness auto
termination
proof (relation "measure (\<lambda>(e, st). length (buffer st))")
  show "wf (measure (\<lambda>(e, st). length (buffer st)))" by simp
next
  fix end_byte :: "byte list" and st :: reader and x2 x y st'
  assume a: "bytes_split1 (buffer st) end_byte = Inr x2" "(x, y) = x2"
    "emit_packet (st\<lparr>buffer := y\<rparr>) (x @ end_byte) = Inr st'"
  from a(1,2) obtain i where i: "end_byte \<noteq> []" "bytes_find (buffer st) end_byte 0 = Some i"
      "y = drop (i + length end_byte) (buffer st)"
    by (auto simp: bytes_split1_def split: if_splits option.splits)
  from bytes_find_bound[OF i(2)] i(1) have "length y < length (buffer st)"
    unfolding i(3) by (cases end_byte) auto
  moreover from emit_packet_buffer[OF a(3)] have "buffer st' = y" by simp
  ultimately show "((end_byte, st'), (end_byte, st)) \<in> measure (\<lambda>(e, st). length (buffer st))"
    by simp
qed

declare end_loop.simps [simp del]

subsection \<open>One read of \<open>run\<close>: the body of \<open>if self.serial_conn.in_waiting\<close>\<close>

text \<open>
  \<open>ingest st data timestamp\<close> is what \<open>run\<close> does with the bytes \<open>data\<close> it has just read
  and the clock reading \<open>timestamp\<close>. An exception leaves the loop of \<open>run\<close>; its handler
  reports it and the thread ends, so no state is kept with \<open>Inl\<close>.
\<close>

definition ingest :: "reader \<Rightarrow> byte list \<Rightarrow> string \<Rightarrow> (error + reader) option" where
  "ingest st data timestamp =
     (let st0 = st\<lparr>last_timestamp := Some timestamp\<rparr> in
      if buffer_enabled st0 \<and> end_marker st0 \<noteq> [] then
        (let appended = buffer st0 @ data;
             st1 = st0\<lparr>buffer := (if max_buffer_size < length appended
                                    then drop (length appended - max_buffer_size) appended
                                    else appended)\<rparr>
         in case parse_marker (start_marker st1) of
              Inl e \<Rightarrow> Some (Inl e)
            | Inr start_byte \<Rightarrow>
               (case parse_marker (end_marker st1) of
                  Inl e \<Rightarrow> Some (Inl e)
                | Inr end_byte \<Rightarrow>
                   if start_byte \<noteq> [] then frame_loop start_byte end_byte st1
                   else Some (end_loop end_byte st1)))
      else Some (emit_packet st0 data))"

text \<open>
  One turn of the loop of \<open>run\<close>: \<open>in_waiting\<close> is the number of bytes the port reports,
  \<open>data\<close> what \<open>read(in_waiting)\<close> then returns. They are two readings of the port, and
  nothing here ties the bytes read to the number reported.
\<close>

definition run_iteration :: "reader \<Rightarrow> nat \<Rightarrow> byte list \<Rightarrow> string \<Rightarrow> (error + reader) option" where
  "run_iteration st in_waiting data timestamp =
     (if in_waiting \<noteq> 0 then ingest st data timestamp else Some (Inr st))"

text \<open>Successive reads, each with its clock reading, until one of them fails.\<close>

fun ingest_all :: "reader \<Rightarrow> (byte list \<times> string) list \<Rightarrow> (error + reader) option" where
  "ingest_all st [] = Some (Inr st)"
| "ingest_all st ((data, timestamp) # reads) =
     (case ingest st data timestamp of
        None \<Rightarrow> None
      | Some (Inl e) \<Rightarrow> Some (Inl e)
      | Some (Inr st') \<Rightarrow> ingest_all st' reads)"

subsection \<open>\<open>stop\<close> and the \<open>finally\<close> block of \<open>run\<close>\<close>

text \<open>
  \<open>stop\<close> writes the residue without the size check of the loop, and closes the file
  object it leaves in \<open>log_file\<close>. Closing a closed file does nothing.
\<close>

definition stop :: "reader \<Rightarrow> error + reader" where
  "stop st =
     (let st0 = st\<lparr>is_running := False\<rparr> in
      case (if buffer_enabled st0 \<and> buffer st0 \<noteq> [] then
              (let hex = hex_data (buffer st0);
                   message = render (last_timestamp st0) (source_label st0) hex;
                   st1 = st0\<lparr>events := events st0 @ [DataReceived (source_label st0) message]\<rparr>
               in case log_file st1 of
                    None \<Rightarrow> Inr st1
                  | Some ClosedFile \<Rightarrow> Inl ValueError
                  | Some OpenFile \<Rightarrow>
                     Inr (st1\<lparr>events := events st1 @ [LogWrote (Message message)]\<rparr>))
            else Inr st0) of
        Inl e \<Rightarrow> Inl e
      | Inr st2 \<Rightarrow>
         (case log_file st2 of
            Some OpenFile \<Rightarrow>
              Inr (st2\<lparr>log_file := Some ClosedFile, events := events st2 @ [LogClosed]\<rparr>)
          | _ \<Rightarrow> Inr st2))"

definition run_finally :: "reader \<Rightarrow> error + reader" where
  "run_finally st =
     (case log_file st of
        None \<Rightarrow> Inr st
      | Some ClosedFile \<Rightarrow> Inl ValueError
      | Some OpenFile \<Rightarrow>
         Inr (st\<lparr>log_file := Some ClosedFile,
                 events := events st @ [LogWrote Footer, LogClosed]\<rparr>))"

section \<open>The coordinator: \<open>ComSniffer\<close>\<close>

text \<open>
  The queues are lists with the oldest entry first. What reaches the display widget and
  the shared log file is recorded in \<open>outputs\<close>. The fields \<open>log_file\<close> and
  \<open>log_file_size\<close> of the class carry the prefix \<open>shared_\<close> here, the reader's record
  having fields of the same names.
\<close>

datatype effect = InsertPlainText string | FileOpened | FileHeader | FileWrote string
  | FileFsync | FileFooter | FileClosed

record sniffer =
  shared_log_file :: "log_handle option"
  shared_log_file_size :: int
  last_fsync_size :: int
  pending_display :: "string list"
  pending_log :: "string list"
  pending_log_bytes :: int
  outputs :: "effect list"

definition fsync_interval :: int where
  "fsync_interval = 8 * 1024"

definition max_pending_display :: nat where
  "max_pending_display = 20000"

definition max_pending_log_bytes :: int where
  "max_pending_log_bytes = 5 * 1024 * 1024"

definition sniffer_open_new_log_file :: "sniffer \<Rightarrow> error + sniffer" where
  "sniffer_open_new_log_file s =
     (case shared_log_file s of
        Some ClosedFile \<Rightarrow> Inl ValueError
      | _ \<Rightarrow>
         (let s1 = (if shared_log_file s = None then s
                    else s\<lparr>outputs := outputs s @ [FileFooter, FileClosed]\<rparr>)
          in Inr (s1\<lparr>shared_log_file := Some OpenFile, shared_log_file_size := 0,
                     outputs := outputs s1 @ [FileOpened, FileHeader]\<rparr>)))"

definition flush_pending :: "sniffer \<Rightarrow> error + sniffer" where
  "flush_pending s =
     (let s1 = (if pending_display s \<noteq> []
                then s\<lparr>outputs := outputs s @ [InsertPlainText (concat (pending_display s))],
                       pending_display := []\<rparr>
                else s)
      in if shared_log_file s1 \<noteq> None \<and> pending_log s1 \<noteq> [] then
           (if shared_log_file s1 = Some ClosedFile then Inl ValueError
            else
              (let s2 = s1\<lparr>outputs := outputs s1 @ [FileWrote (concat (pending_log s1))],
                           pending_log := [],
                           shared_log_file_size := shared_log_file_size s1 + pending_log_bytes s1,
                           pending_log_bytes := 0\<rparr>;
                   s3 = (if fsync_interval \<le> shared_log_file_size s2 - last_fsync_size s2
                         then s2\<lparr>outputs := outputs s2 @ [FileFsync],
                                 last_fsync_size := shared_log_file_size s2\<rparr>
                         else s2)
               in if int max_log_size \<le> shared_log_file_size s3
                  then sniffer_open_new_log_file s3 else Inr s3))
         else Inr s1)"

text \<open>The loop \<open>while len(self.pending_display) > self.max_pending_display: popleft()\<close>.\<close>

fun popleft_while :: "nat \<Rightarrow> 'a list \<Rightarrow> 'a list" where
  "popleft_while m q = (if m < length q then popleft_while m (tl q) else q)"

declare popleft_while.simps [simp del]

definition on_data_received :: "sniffer \<Rightarrow> string \<Rightarrow> string \<Rightarrow> error + sniffer" where
  "on_data_received s label data =
     (let s1 = s\<lparr>pending_display := pending_display s @ [data]\<rparr>;
          s2 = (if max_pending_display < length (pending_display s1)
                then s1\<lparr>pending_display := popleft_while max_pending_display (pending_display s1)\<rparr>
                else s1);
          s3 = (if shared_log_file s2 \<noteq> None then
                  (let s' = s2\<lparr>pending_log := pending_log s2 @ [data],
                               pending_log_bytes :=
                                 pending_log_bytes s2 + int (length (encode_utf8 data))\<rparr>
                   in if max_pending_log_bytes < pending_log_bytes s'
                      then s'\<lparr>pending_log := [], pending_log_bytes := 0\<rparr> else s')
                else s2)
      in if 1000 \<le> length (pending_display s3) then flush_pending s3 else Inr s3)"

subsection \<open>What an observer sees of the coordinator\<close>

text \<open>
  What the display has been given, chunk by chunk; and successive calls of
  \<open>on_data_received\<close>, each with its label and its text, until one of them fails.
\<close>

fun shown_text :: "effect \<Rightarrow> string list" where
  "shown_text (InsertPlainText t) = [t]"
| "shown_text e = []"

definition displayed :: "sniffer \<Rightarrow> string list" where
  "displayed s = concat (map shown_text (outputs s))"

fun enqueue_all :: "sniffer \<Rightarrow> (string \<times> string) list \<Rightarrow> error + sniffer" where
  "enqueue_all s [] = Inr s"
| "enqueue_all s ((label, data) # items) =
     (case on_data_received s label data of Inl e \<Rightarrow> Inl e | Inr s' \<Rightarrow> enqueue_all s' items)"

text \<open>A coordinator that has not opened a log file and holds nothing.\<close>

definition idle_sniffer :: sniffer where
  "idle_sniffer = \<lparr>shared_log_file = None, shared_log_file_size = 0, last_fsync_size = 0,
     pending_display = [], pending_log = [], pending_log_bytes = 0, outputs = []\<rparr>"

section \<open>What an observer sees of a reader\<close>

text \<open>
  The \<open>data_received\<close> signals a reader has sent and the packet lines it has written to
  its log files, each in order; \<open>packet_signal\<close> is the signal that publishing \<open>packet\<close>
  from the state \<open>st\<close> sends.
\<close>

fun is_signal :: "event \<Rightarrow> bool" where
  "is_signal (DataReceived label message) = True"
| "is_signal e = False"

fun is_log_line :: "event \<Rightarrow> bool" where
  "is_log_line (LogWrote (Message message)) = True"
| "is_log_line e = False"

definition signals :: "reader \<Rightarrow> event list" where
  "signals st = filter is_signal (events st)"

definition log_lines :: "reader \<Rightarrow> event list" where
  "log_lines st = filter is_log_line (events st)"

definition packet_text :: "reader \<Rightarrow> byte list \<Rightarrow> string" where
  "packet_text st packet = render (last_timestamp st) (source_label st) (hex_data packet)"

definition packet_signal :: "reader \<Rightarrow> byte list \<Rightarrow> event" where
  "packet_signal st packet = DataReceived (source_label st) (packet_text st packet)"

definition packet_log_line :: "reader \<Rightarrow> byte list \<Rightarrow> event" where
  "packet_log_line st packet = LogWrote (Message (packet_text st packet))"

text \<open>What publishing packets leaves as it is; a closed log file stays closed, an absent one absent.\<close>

definition same_setup :: "reader \<Rightarrow> reader \<Rightarrow> bool" where
  "same_setup st st' =
     (buffer_enabled st' = buffer_enabled st \<and> start_marker st' = start_marker st
      \<and> end_marker st' = end_marker st \<and> source_label st' = source_label st
      \<and> last_timestamp st' = last_timestamp st
      \<and> (log_file st' = None \<longleftrightarrow> log_file st = None)
      \<and> (log_file st' = Some ClosedFile \<longleftrightarrow> log_file st = Some ClosedFile))"

text \<open>
  The readers \<open>start_monitoring\<close> creates: no log directory of their own, and with the
  protocol \<open>Gilbarco 2Wire\<close> buffering between the markers \<open>0x02\<close> and \<open>0x03\<close>. The second
  reader buffers up to the end marker alone.
\<close>

definition gilbarco_reader :: reader where
  "gilbarco_reader = init_reader ''COM1'' 9600 8 None ''RX1'' True ''0x03'' ''0x02''"

definition end_marker_reader :: reader where
  "end_marker_reader = init_reader ''COM1'' 9600 8 None ''RX1'' True ''0x03'' []"

text \<open>A reader with buffering off: every chunk read is published as it is.\<close>

definition plain_reader :: reader where
  "plain_reader = init_reader ''COM1'' 9600 8 None ''RX1'' False [] []"

text \<open>
  A reader that is given a log directory, and so keeps a log file of its own; the
  application itself creates its readers without one.
\<close>

definition logging_reader :: reader where
  "logging_reader = init_reader ''COM1'' 9600 8 (Some ''logs'') ''RX1'' True ''0x03'' ''0x02''"

section \<open>The framing rules of the specification\<close>

text \<open>
  The rules of the specification's frame extractor, written after its words and without
  the search functions of the model: a marker is present at an offset when the bytes from
  that offset on begin with it, and the first offset from a position on is looked up among
  all offsets in order. \<open>keep_newest\<close> is the size cap: only the most recent \<open>n\<close> bytes
  stay.
\<close>

definition occurs_at :: "'a list \<Rightarrow> 'a list \<Rightarrow> nat \<Rightarrow> bool" where
  "occurs_at marker bytes i = (i \<le> length bytes \<and> prefix marker (drop i bytes))"

definition first_offset :: "'a list \<Rightarrow> 'a list \<Rightarrow> nat \<Rightarrow> nat option" where
  "first_offset marker bytes start = List.find (occurs_at marker bytes) [start..<Suc (length bytes)]"

definition keep_newest :: "nat \<Rightarrow> 'a list \<Rightarrow> 'a list" where
  "keep_newest n bytes = drop (length bytes - n) bytes"

lemma first_offset_bound:
  assumes "first_offset m b s = Some i"
  shows "s \<le> i \<and> i + length m \<le> length b"
proof -
  from assms have "i \<in> set [s..<Suc (length b)]" "occurs_at m b i"
    unfolding first_offset_def by (auto simp: find_Some_iff simp del: upt_Suc)
  then show ?thesis by (auto simp: occurs_at_def dest!: prefix_length_le)
qed

text \<open>
  Start/end framing: locate the start marker; if absent, discard everything and stop; drop
  what precedes it; search the end marker after the start marker's bytes; if absent, stop
  and keep the buffer; otherwise the bytes up to the end of the end marker are one frame,
  and the rule repeats on what follows. The mode exists for a non-empty start marker only.
\<close>

function spec_start_end_frames ::
  "'a list \<Rightarrow> 'a list \<Rightarrow> 'a list \<Rightarrow> 'a list list \<times> 'a list" where
  "spec_start_end_frames start_m end_m bytes =
     (if start_m = [] then ([], bytes)
      else case first_offset start_m bytes 0 of
             None \<Rightarrow> ([], [])
           | Some i \<Rightarrow>
              (let kept = drop i bytes in
               case first_offset end_m kept (length start_m) of
                 None \<Rightarrow> ([], kept)
               | Some j \<Rightarrow>
                  (let n = j + length end_m;
                       (frames, rest) = spec_start_end_frames start_m end_m (drop n kept)
                   in (take n kept # frames, rest))))"
  by pat_completeness auto
termination
proof (relation "measure (\<lambda>(s, e, b). length b)")
  show "wf (measure (\<lambda>(s, e, b). length b))" by simp
next
  fix start_m end_m bytes :: "'a list" and i kept j n
  assume a: "start_m \<noteq> []" "first_offset start_m bytes 0 = Some i" "kept = drop i bytes"
    "first_offset end_m kept (length start_m) = Some j" "n = j + length end_m"
  from first_offset_bound[OF a(4)] a(1) have "0 < n" "n \<le> length kept"
    unfolding a(5) by (cases start_m; simp)+
  then have "length (drop n kept) < length bytes" unfolding a(3) by simp
  then show "((start_m, end_m, drop n kept), (start_m, end_m, bytes)) \<in> measure (\<lambda>(s, e, b). length b)"
    by simp
qed

declare spec_start_end_frames.simps [simp del]

text \<open>
  End-marker-only framing: each time the end marker is found, everything up to and
  including it is one frame, and the scan goes on in the remainder.
\<close>

function spec_end_only_frames :: "'a list \<Rightarrow> 'a list \<Rightarrow> 'a list list \<times> 'a list" where
  "spec_end_only_frames end_m bytes =
     (if end_m = [] then ([], bytes)
      else case first_offset end_m bytes 0 of
             None \<Rightarrow> ([], bytes)
           | Some i \<Rightarrow>
              (let n = i + length end_m;
                   (frames, rest) = spec_end_only_frames end_m (drop n bytes)
               in (take n bytes # frames, rest)))"
  by pat_completeness auto
termination
proof (relation "measure (\<lambda>(e, b). length b)")
  show "wf (measure (\<lambda>(e, b). length b))" by simp
next
  fix end_m bytes :: "'a list" and i n
  assume a: "end_m \<noteq> []" "first_offset end_m bytes 0 = Some i" "n = i + length end_m"
  from first_offset_bound[OF a(2)] a(1) have "0 < n" "n \<le> length bytes"
    unfolding a(3) by (cases end_m; simp)+
  then show "((end_m, drop n bytes), (end_m, bytes)) \<in> measure (\<lambda>(e, b). length b)"
    by simp
qed

declare spec_end_only_frames.simps [simp del]

text \<open>Publishing frames one after the other, the first failure ending it.\<close>

fun emit_all :: "reader \<Rightarrow> byte list list \<Rightarrow> error + reader" where
  "emit_all st [] = Inr st"
| "emit_all st (packet # packets) =
     (case emit_packet st packet of Inl e \<Rightarrow> Inl e | Inr st' \<Rightarrow> emit_all st' packets)"

text \<open>
  The two rules under one name: the resolved start marker selects the mode, as the test
  \<open>if start_byte\<close> of the source does.
\<close>

definition spec_frames :: "'a list \<Rightarrow> 'a list \<Rightarrow> 'a list \<Rightarrow> 'a list list \<times> 'a list" where
  "spec_frames start_m end_m bytes =
     (if start_m \<noteq> [] then spec_start_end_frames start_m end_m bytes
      else spec_end_only_frames end_m bytes)"

section \<open>The log file of a reader, as an observer sees it\<close>

text \<open>
  The bytes that count for the rotation of a log file: those of the packet lines written
  to it since it was opened. The lines of the header are not counted, in the source as in
  the specification's cumulative rendered size of the packets written.
\<close>

fun file_bytes :: "nat \<Rightarrow> event list \<Rightarrow> nat" where
  "file_bytes n [] = n"
| "file_bytes n (LogOpened # es) = file_bytes 0 es"
| "file_bytes n (LogWrote (Message m) # es) = file_bytes (n + length (encode_utf8 m)) es"
| "file_bytes n (e # es) = file_bytes n es"

definition current_file_bytes :: "event list \<Rightarrow> nat" where
  "current_file_bytes es = file_bytes 0 es"

text \<open>
  A log sink at work: the reader has a log directory and an open log file, and its counter
  holds the bytes of the packet lines in that file.
\<close>

definition log_sink :: "reader \<Rightarrow> bool" where
  "log_sink st = (log_dir st \<noteq> None \<and> log_dir st \<noteq> Some [] \<and> log_file st = Some OpenFile
     \<and> log_file_size st = current_file_bytes (events st))"

text \<open>A rotation as the log shows it: footer, close, the new file, its header.\<close>

definition rotation_events :: "reader \<Rightarrow> event list" where
  "rotation_events st =
     [LogWrote Footer, LogClosed, LogOpened,
      LogWrote (Header (source_label st) (port st) (baudrate st) (bytesize st))]"

text \<open>Successive packet lines written to the log, until a write fails.\<close>

fun write_all :: "reader \<Rightarrow> string list \<Rightarrow> error + reader" where
  "write_all st [] = Inr st"
| "write_all st (message # messages) =
     (case log_message st message of Inl e \<Rightarrow> Inl e | Inr st' \<Rightarrow> write_all st' messages)"

text \<open>
  The rotation rule of the specification: the bytes written to the current file are added
  up; when a write brings them to the limit or beyond, the file is rotated, once, and
  the count begins again with the new file.
\<close>

fun spec_sink_events :: "event list \<Rightarrow> nat \<Rightarrow> string list \<Rightarrow> event list" where
  "spec_sink_events rotation written [] = []"
| "spec_sink_events rotation written (message # messages) =
     (let written' = written + length (encode_utf8 message) in
      if max_log_size \<le> written'
      then LogWrote (Message message) # rotation @ spec_sink_events rotation 0 messages
      else LogWrote (Message message) # spec_sink_events rotation written' messages)"

section \<open>The marker resolver\<close>

lemma strip_keeps_two:
  assumes "\<not> isspace a" "\<not> isspace b"
  shows "\<exists>r. strip (a # b # xs) = a # b # r"
proof -
  have 1: "dropWhile isspace (a # b # xs) = a # b # xs" using assms by simp
  have "rev (a # b # xs) = rev xs @ [b, a]" by simp
  then have "\<exists>p. dropWhile isspace (rev (a # b # xs)) = p @ [b, a]"
    using assms by (auto simp: dropWhile_append)
  then obtain p where "dropWhile isspace (rev (a # b # xs)) = p @ [b, a]" by blast
  then show ?thesis unfolding strip_def 1 by simp
qed

lemma case_chars:
  "upper_char (CHR ''0'') = CHR ''0''" "upper_char (CHR ''x'') = CHR ''X''"
  "upper_char (CHR ''X'') = CHR ''X''" "lower_char (CHR ''0'') = CHR ''0''"
  "lower_char (CHR ''X'') = CHR ''x''"
  by code_simp+

lemma hex_prefix_branch:
  assumes "startswith s ''0x'' \<or> startswith s ''0X''"
  shows "s \<noteq> [] \<and> upper (strip s) \<noteq> ''STX'' \<and> upper (strip s) \<noteq> ''ETX''
         \<and> startswith (lower (upper (strip s))) ''0x''"
proof -
  from assms obtain b xs where s: "s = CHR ''0'' # b # xs" and b: "b = CHR ''x'' \<or> b = CHR ''X''"
    by (auto simp: startswith_def prefix_def)
  have "\<not> isspace (CHR ''0'')" "\<not> isspace b" using b by (auto simp: isspace_def)
  from strip_keeps_two[OF this] obtain r where r: "strip s = CHR ''0'' # b # r" unfolding s by blast
  have "upper (strip s) = CHR ''0'' # CHR ''X'' # upper r"
    using b unfolding r upper_def by (auto simp: case_chars)
  then show ?thesis unfolding startswith_def lower_def by (simp add: s case_chars)
qed

lemma parse_marker_hex_fallback:
  assumes "startswith s ''0x'' \<or> startswith s ''0X''"
    and "py_int 16 (upper (strip s)) = Inl ValueError"
  shows "parse_marker s = Inr (encode_utf8 s)"
  using hex_prefix_branch[OF assms(1)] assms(2) by (simp add: parse_marker_def Let_def)

text \<open>
  C4. The reference cases of the resolver: the keywords in either case, a hexadecimal and
  a decimal literal, the raw-text fallback and the empty text; and every ASCII text that
  begins with \<open>0x\<close> or \<open>0X\<close> and that \<open>int(..., 16)\<close> refuses is returned as its own
  encoded bytes, no exception leaving the function.
\<close>

theorem parse_marker_reference_cases:
  "parse_marker ''STX'' = Inr [0x02] \<and> parse_marker ''etx'' = Inr [0x03]
   \<and> parse_marker ''0x41'' = Inr [0x41] \<and> parse_marker ''65'' = Inr [0x41]
   \<and> parse_marker ''Q'' = Inr [0x51] \<and> parse_marker '''' = Inr []
   \<and> (\<forall>s. isascii s \<longrightarrow> (startswith s ''0x'' \<or> startswith s ''0X'')
          \<longrightarrow> py_int 16 (upper (strip s)) = Inl ValueError
          \<longrightarrow> parse_marker s = Inr (encode_utf8 s))"
proof -
  have 1: "parse_marker ''STX'' = Inr [0x02]" by code_simp
  have 2: "parse_marker ''etx'' = Inr [0x03]" by code_simp
  have 3: "parse_marker ''0x41'' = Inr [0x41]" by code_simp
  have 4: "parse_marker ''65'' = Inr [0x41]" by code_simp
  have 5: "parse_marker ''Q'' = Inr [0x51]" by code_simp
  have 6: "parse_marker '''' = Inr []" by code_simp
  show ?thesis using 1 2 3 4 5 6 parse_marker_hex_fallback by blast
qed

theorem parse_marker_reference_cases_witness:
  "isascii ''0xZZ'' \<and> startswith ''0xZZ'' ''0x''
   \<and> py_int 16 (upper (strip ''0xZZ'')) = Inl ValueError
   \<and> parse_marker ''0xZZ'' = Inr [0x30, 0x78, 0x5A, 0x5A]"
proof -
  have a: "isascii ''0xZZ''" by code_simp
  have b: "startswith ''0xZZ'' ''0x''" by code_simp
  have c: "py_int 16 (upper (strip ''0xZZ'')) = Inl ValueError" by code_simp
  have d: "encode_utf8 ''0xZZ'' = [0x30, 0x78, 0x5A, 0x5A]" by code_simp
  from parse_marker_reference_cases a b c have "parse_marker ''0xZZ'' = Inr (encode_utf8 ''0xZZ'')"
    by blast
  with a b c d show ?thesis by simp
qed














section \<open>The framing loops against the rules of the specification\<close>

lemma find_map_option: "List.find P (map f xs) = map_option f (List.find (\<lambda>x. P (f x)) xs)"
  by (induction xs) auto

lemma find_at_first:
  "find_at sub xs k = map_option (\<lambda>i. k + i) (List.find (\<lambda>i. prefix sub (drop i xs)) [0..<Suc (length xs)])"
proof (induction xs arbitrary: k)
  case Nil
  then show ?case by simp
next
  case (Cons x xs)
  have up: "[0..<Suc (length (x # xs))] = 0 # map Suc [0..<Suc (length xs)]"
    by (simp add: upt_conv_Cons map_Suc_upt del: upt_Suc)
  show ?case
    unfolding up by (simp add: find_map_option Cons.IH option.map_comp comp_def del: upt_Suc)
qed

lemma bytes_find_first_offset: "bytes_find bytes marker start = first_offset marker bytes start"
proof (cases "length bytes < start")
  case True
  then show ?thesis by (simp add: bytes_find_def first_offset_def)
next
  case False
  then have le: "start \<le> length bytes" by simp
  have "map (\<lambda>i. i + start) [0..<Suc (length bytes - start)]
      = [start..<Suc (length bytes - start) + start]"
    by (rule map_add_upt)
  moreover have "Suc (length bytes - start) + start = Suc (length bytes)" using le by simp
  ultimately have up: "[start..<Suc (length bytes)]
      = map (\<lambda>i. start + i) [0..<Suc (length bytes - start)]"
    by (simp add: add.commute del: upt_Suc)
  have P: "\<And>i. i \<in> set [0..<Suc (length bytes - start)] \<Longrightarrow>
      occurs_at marker bytes (start + i) = prefix marker (drop i (drop start bytes))"
    using le by (auto simp: occurs_at_def add.commute)
  have "List.find (\<lambda>i. occurs_at marker bytes (start + i)) [0..<Suc (length bytes - start)]
      = List.find (\<lambda>i. prefix marker (drop i (drop start bytes))) [0..<Suc (length bytes - start)]"
    by (rule find_cong[OF refl P])
  then show ?thesis
    using False unfolding bytes_find_def first_offset_def up
    by (simp add: find_map_option find_at_first del: upt_Suc)
qed


lemma emit_packet_buffer_update:
  "emit_packet (s\<lparr>buffer := b\<rparr>) p = map_sum id (\<lambda>s'. s'\<lparr>buffer := b\<rparr>) (emit_packet s p)"
  by (simp add: emit_packet_def log_message_def rotate_log_file_def open_new_log_file_def Let_def
      split: option.splits log_handle.splits)

lemma emit_packet_rebuffer:
  assumes "emit_packet (s\<lparr>buffer := b\<rparr>) p = Inr s'"
  shows "emit_packet (s\<lparr>buffer := c\<rparr>) p = Inr (s'\<lparr>buffer := c\<rparr>)"
proof -
  from assms obtain t where t: "emit_packet s p = Inr t" "s' = t\<lparr>buffer := b\<rparr>"
    unfolding emit_packet_buffer_update[where s=s and b=b] by (cases "emit_packet s p") auto
  then show ?thesis unfolding emit_packet_buffer_update[where s=s and b=c] by simp
qed

lemma emit_packet_rebuffer_error:
  assumes "emit_packet (s\<lparr>buffer := b\<rparr>) p = Inl e"
  shows "emit_packet (s\<lparr>buffer := c\<rparr>) p = Inl e"
  using assms
  unfolding emit_packet_buffer_update[where s=s and b=b] emit_packet_buffer_update[where s=s and b=c]
  by (cases "emit_packet s p") auto

lemma frame_loop_spec:
  assumes "sb \<noteq> []"
  shows "frame_loop sb eb s =
    Some (emit_all (s\<lparr>buffer := snd (spec_start_end_frames sb eb (buffer s))\<rparr>)
            (fst (spec_start_end_frames sb eb (buffer s))))"
proof (induction "length (buffer s)" arbitrary: s rule: less_induct)
  case less
  show ?case
  proof (cases "first_offset sb (buffer s) 0")
    case None
    then show ?thesis
      by (subst frame_loop.simps, subst (1 2) spec_start_end_frames.simps)
         (simp add: assms bytes_find_first_offset)
  next
    case (Some i)
    let ?kept = "drop i (buffer s)"
    have st1: "buffer (if 0 < i then s\<lparr>buffer := ?kept\<rparr> else s) = ?kept" by simp
    have st1': "(if 0 < i then s\<lparr>buffer := ?kept\<rparr> else s) = s\<lparr>buffer := ?kept\<rparr>" by simp
    show ?thesis
    proof (cases "first_offset eb ?kept (length sb)")
      case None
      then show ?thesis
        by (subst frame_loop.simps, subst (1 2) spec_start_end_frames.simps)
           (auto simp add: assms bytes_find_first_offset Some Let_def)
    next
      case (Some j)
      let ?n = "j + length eb"
      let ?packet = "take ?n ?kept"
      let ?next = "drop ?n ?kept"
      from assms obtain k where "length sb = Suc k" by (cases sb) auto
      with first_offset_bound[OF Some] have shorter: "length ?next < length (buffer s)"
        by simp arith
      obtain frames rest where sp: "spec_start_end_frames sb eb ?next = (frames, rest)"
        by (cases "spec_start_end_frames sb eb ?next")
      have spec: "spec_start_end_frames sb eb (buffer s) = (?packet # frames, rest)"
        by (subst spec_start_end_frames.simps)
           (simp add: assms \<open>first_offset sb (buffer s) 0 = Some i\<close> Some Let_def sp
              del: drop_drop)
      have loop: "frame_loop sb eb s =
          (case emit_packet (s\<lparr>buffer := ?next\<rparr>) ?packet of
             Inl e \<Rightarrow> Some (Inl e)
           | Inr st3 \<Rightarrow> frame_loop sb eb st3)"
        using Some by (subst frame_loop.simps)
           (auto simp add: bytes_find_first_offset \<open>first_offset sb (buffer s) 0 = Some i\<close> Let_def
              simp del: drop_drop)
      show ?thesis
      proof (cases "emit_packet (s\<lparr>buffer := ?next\<rparr>) ?packet")
        case (Inl e)
        from emit_packet_rebuffer_error[OF Inl, of rest] show ?thesis
          unfolding loop spec by (simp add: Inl del: drop_drop)
      next
        case (Inr st3)
        from emit_packet_buffer[OF Inr] have b3: "buffer st3 = ?next" by (simp del: drop_drop)
        from less[of st3] shorter b3
        have "frame_loop sb eb st3 = Some (emit_all (st3\<lparr>buffer := rest\<rparr>) frames)"
          by (simp add: sp del: drop_drop)
        with emit_packet_rebuffer[OF Inr, of rest] show ?thesis
          unfolding loop spec by (simp add: Inr del: drop_drop)
      qed
    qed
  qed
qed

lemma end_loop_spec:
  assumes "eb \<noteq> []"
  shows "end_loop eb s =
    emit_all (s\<lparr>buffer := snd (spec_end_only_frames eb (buffer s))\<rparr>)
      (fst (spec_end_only_frames eb (buffer s)))"
proof (induction "length (buffer s)" arbitrary: s rule: less_induct)
  case less
  show ?case
  proof (cases "first_offset eb (buffer s) 0")
    case None
    then show ?thesis
      by (subst end_loop.simps, subst (1 2) spec_end_only_frames.simps)
         (simp add: assms bytes_find_first_offset)
  next
    case (Some i)
    let ?n = "i + length eb"
    let ?packet = "take ?n (buffer s)"
    let ?next = "drop ?n (buffer s)"
    from assms obtain k where "length eb = Suc k" by (cases eb) auto
    with first_offset_bound[OF Some] have shorter: "length ?next < length (buffer s)"
      by simp
    have occ: "occurs_at eb (buffer s) i"
      using Some unfolding first_offset_def by (auto simp: find_Some_iff simp del: upt_Suc)
    then have pk: "take i (buffer s) @ eb = ?packet"
      unfolding occurs_at_def prefix_def
      by (metis append_eq_conv_conj append_take_drop_id take_add)
    obtain frames rest where sp: "spec_end_only_frames eb ?next = (frames, rest)"
      by (cases "spec_end_only_frames eb ?next")
    have spec: "spec_end_only_frames eb (buffer s) = (?packet # frames, rest)"
      by (subst spec_end_only_frames.simps) (simp add: assms Some Let_def sp)
    have loop: "end_loop eb s =
        (case emit_packet (s\<lparr>buffer := ?next\<rparr>) ?packet of
           Inl e \<Rightarrow> Inl e
         | Inr st' \<Rightarrow> end_loop eb st')"
      by (subst end_loop.simps)
         (simp add: bytes_find_first_offset Some bytes_split1_def assms pk)
    show ?thesis
    proof (cases "emit_packet (s\<lparr>buffer := ?next\<rparr>) ?packet")
      case (Inl e)
      from emit_packet_rebuffer_error[OF Inl, of rest] show ?thesis
        unfolding loop spec by (simp add: Inl)
    next
      case (Inr st3)
      from emit_packet_buffer[OF Inr] have b3: "buffer st3 = ?next" by simp
      from less[of st3] shorter b3
      have "end_loop eb st3 = emit_all (st3\<lparr>buffer := rest\<rparr>) frames"
        by (simp add: sp)
      with emit_packet_rebuffer[OF Inr, of rest] show ?thesis
        unfolding loop spec by (simp add: Inr)
    qed
  qed
qed

lemma same_setup_refl: "same_setup st st"
  by (simp add: same_setup_def)

lemma same_setup_trans: "same_setup a b \<Longrightarrow> same_setup b c \<Longrightarrow> same_setup a c"
  by (simp add: same_setup_def)

lemma emit_packet_effect:
  assumes "log_file st \<noteq> Some ClosedFile"
  shows "\<exists>st'. emit_packet st p = Inr st' \<and> buffer st' = buffer st \<and> same_setup st st'
     \<and> signals st' = signals st @ [packet_signal st p]
     \<and> log_lines st' = log_lines st @ (if log_file st = None then [] else [packet_log_line st p])"
proof (cases "log_file st")
  case None
  then show ?thesis
    by (simp add: emit_packet_def log_message_def Let_def same_setup_def signals_def log_lines_def
        packet_signal_def packet_log_line_def packet_text_def format_packet_display_def)
next
  case (Some h)
  with assms have h: "log_file st = Some OpenFile" by (cases h) auto
  show ?thesis
    by (simp add: h emit_packet_def log_message_def rotate_log_file_def open_new_log_file_def
        Let_def same_setup_def signals_def log_lines_def
        packet_signal_def packet_log_line_def packet_text_def format_packet_display_def)
qed

lemma packet_signal_cong:
  "same_setup st st' \<Longrightarrow> packet_signal st' p = packet_signal st p"
  "same_setup st st' \<Longrightarrow> packet_log_line st' p = packet_log_line st p"
  by (simp_all add: same_setup_def packet_signal_def packet_log_line_def packet_text_def)

lemma emit_all_effect:
  assumes "log_file st \<noteq> Some ClosedFile"
  shows "\<exists>st'. emit_all st ps = Inr st' \<and> buffer st' = buffer st \<and> same_setup st st'
     \<and> signals st' = signals st @ map (packet_signal st) ps
     \<and> log_lines st' = log_lines st @ (if log_file st = None then [] else map (packet_log_line st) ps)"
  using assms
proof (induction ps arbitrary: st)
  case Nil
  then show ?case by (simp add: same_setup_refl)
next
  case (Cons p ps)
  from emit_packet_effect[OF Cons.prems, of p] obtain s1 where s1:
    "emit_packet st p = Inr s1" "buffer s1 = buffer st" "same_setup st s1"
    "signals s1 = signals st @ [packet_signal st p]"
    "log_lines s1 = log_lines st @ (if log_file st = None then [] else [packet_log_line st p])"
    by blast
  from s1(3) Cons.prems have ok: "log_file s1 \<noteq> Some ClosedFile" by (simp add: same_setup_def)
  from Cons.IH[OF ok] obtain s2 where s2:
    "emit_all s1 ps = Inr s2" "buffer s2 = buffer s1" "same_setup s1 s2"
    "signals s2 = signals s1 @ map (packet_signal s1) ps"
    "log_lines s2 = log_lines s1 @ (if log_file s1 = None then [] else map (packet_log_line s1) ps)"
    by blast
  have m1: "map (packet_signal s1) ps = map (packet_signal st) ps"
    and m2: "map (packet_log_line s1) ps = map (packet_log_line st) ps"
    using packet_signal_cong[OF s1(3)] by simp_all
  have n: "(log_file s1 = None) = (log_file st = None)" using s1(3) by (simp add: same_setup_def)
  show ?case
    using s1 s2 same_setup_trans[OF s1(3) s2(3)] by (simp add: m1 m2 n)
qed

section \<open>Start/end framing\<close>

lemma parse_marker_nonempty:
  assumes "parse_marker s = Inr b" "s \<noteq> []"
  shows "b \<noteq> []"
proof -
  have enc: "encode_utf8 s \<noteq> []"
    using assms(2) by (cases s) (simp_all add: encode_utf8_def utf8_char_def Let_def)
  have b1: "\<And>v c. bytes1 v = Inr c \<Longrightarrow> c \<noteq> []" by (auto simp: bytes1_def split: if_splits)
  from assms enc b1 show ?thesis
    unfolding parse_marker_def Let_def
    by (auto split: if_splits sum.splits)
qed

lemma ingest_start_end:
  assumes "buffer_enabled st" "end_marker st \<noteq> []"
    "parse_marker (start_marker st) = Inr sb" "sb \<noteq> []"
    "parse_marker (end_marker st) = Inr eb"
  shows "ingest st data ts =
    Some (emit_all
      (st\<lparr>last_timestamp := Some ts,
          buffer := snd (spec_start_end_frames sb eb (keep_newest max_buffer_size (buffer st @ data)))\<rparr>)
      (fst (spec_start_end_frames sb eb (keep_newest max_buffer_size (buffer st @ data)))))"
  using assms unfolding ingest_def Let_def
  by (simp add: frame_loop_spec keep_newest_def)


lemma gilbarco_setup:
  "buffer_enabled gilbarco_reader" "end_marker gilbarco_reader = ''0x03''"
  "start_marker gilbarco_reader = ''0x02''" "buffer gilbarco_reader = []"
  "log_file gilbarco_reader = None" "source_label gilbarco_reader = ''RX1''"
  "events gilbarco_reader = []"
  by (simp_all add: gilbarco_reader_def init_reader_def)

lemma marker_bytes:
  "parse_marker ''0x02'' = Inr [0x02]" "parse_marker ''0x03'' = Inr [0x03]"
  by code_simp+

lemma small_window: "length b \<le> 1000 \<Longrightarrow> keep_newest max_buffer_size b = b"
  by (simp add: keep_newest_def max_buffer_size_def)

lemma ex_frames:
  "spec_start_end_frames [0x02] [0x03] [0x02, 0x41, 0x42, 0x03, 0x02, 0x43, 0x03 :: byte]
     = ([[0x02, 0x41, 0x42, 0x03], [0x02, 0x43, 0x03]], [])"
  by code_simp

lemma ex_emit:
  "emit_all (gilbarco_reader\<lparr>last_timestamp := Some ''12:00:00.000'', buffer := []\<rparr>)
      [[0x02, 0x41, 0x42, 0x03], [0x02, 0x43, 0x03]]
   = Inr (gilbarco_reader\<lparr>last_timestamp := Some ''12:00:00.000'', buffer := [],
            events := [DataReceived ''RX1'' ''[12:00:00.000] RX1 02 41 42 03\<newline>'',
                       DataReceived ''RX1'' ''[12:00:00.000] RX1 02 43 03\<newline>'']\<rparr>)"
  by code_simp

lemma start_end_example: "ingest gilbarco_reader [0x02, 0x41, 0x42, 0x03, 0x02, 0x43, 0x03] ''12:00:00.000''
       = Some (Inr (gilbarco_reader\<lparr>last_timestamp := Some ''12:00:00.000'', buffer := [],
            events := [DataReceived ''RX1'' ''[12:00:00.000] RX1 02 41 42 03\<newline>'',
                       DataReceived ''RX1'' ''[12:00:00.000] RX1 02 43 03\<newline>'']\<rparr>))"
proof -
  have "ingest gilbarco_reader [0x02, 0x41, 0x42, 0x03, 0x02, 0x43, 0x03] ''12:00:00.000''
    = Some (emit_all
      (gilbarco_reader\<lparr>last_timestamp := Some ''12:00:00.000'',
          buffer := snd (spec_start_end_frames [0x02] [0x03] (keep_newest max_buffer_size (buffer gilbarco_reader @ [0x02, 0x41, 0x42, 0x03, 0x02, 0x43, 0x03])))\<rparr>)
      (fst (spec_start_end_frames [0x02] [0x03] (keep_newest max_buffer_size (buffer gilbarco_reader @ [0x02, 0x41, 0x42, 0x03, 0x02, 0x43, 0x03])))))"
    by (rule ingest_start_end) (simp_all add: gilbarco_setup marker_bytes)
  moreover have "keep_newest max_buffer_size
      (buffer gilbarco_reader @ [0x02, 0x41, 0x42, 0x03, 0x02, 0x43, 0x03])
      = [0x02, 0x41, 0x42, 0x03, 0x02, 0x43, 0x03]"
    by (simp add: gilbarco_setup small_window)
  ultimately show ?thesis
    by (simp only: ex_frames fst_conv snd_conv ex_emit)
qed



text \<open>
  C1. In start/end framing mode (buffering on, both markers resolved, the start marker
  non-empty) one read appends the chunk, keeps the newest bytes within the cap and then
  does what the specification's rule says: the frames of \<open>spec_start_end_frames\<close> are
  published one after the other, in order, and its remainder is the new buffer. With no
  closed log file in the way the read returns, the signals sent are exactly those of the
  frames, and each frame is also a line of the log file when there is one. In particular
  the chunk \<open>02 41 42 03 02 43 03\<close> gives the packets \<open>02 41 42 03\<close> and \<open>02 43 03\<close>, in
  this order, and an empty buffer.
\<close>

theorem ingest_start_end_framing:
  "(\<forall>st data timestamp start_byte end_byte.
      buffer_enabled st \<and> end_marker st \<noteq> []
      \<and> parse_marker (start_marker st) = Inr start_byte \<and> start_byte \<noteq> []
      \<and> parse_marker (end_marker st) = Inr end_byte \<longrightarrow>
      (let window = keep_newest max_buffer_size (buffer st @ data);
           frames = fst (spec_start_end_frames start_byte end_byte window);
           rest = snd (spec_start_end_frames start_byte end_byte window);
           st0 = st\<lparr>last_timestamp := Some timestamp\<rparr>
       in ingest st data timestamp = Some (emit_all (st0\<lparr>buffer := rest\<rparr>) frames)
          \<and> (log_file st \<noteq> Some ClosedFile \<longrightarrow>
               (\<exists>st'. ingest st data timestamp = Some (Inr st') \<and> buffer st' = rest
                  \<and> signals st' = signals st @ map (packet_signal st0) frames
                  \<and> log_lines st' = log_lines st @
                       (if log_file st = None then [] else map (packet_log_line st0) frames)))))
   \<and> ingest gilbarco_reader [0x02, 0x41, 0x42, 0x03, 0x02, 0x43, 0x03] ''12:00:00.000''
       = Some (Inr (gilbarco_reader\<lparr>last_timestamp := Some ''12:00:00.000'', buffer := [],
            events := [DataReceived ''RX1'' ''[12:00:00.000] RX1 02 41 42 03\<newline>'',
                       DataReceived ''RX1'' ''[12:00:00.000] RX1 02 43 03\<newline>'']\<rparr>))"
proof -
  have general: "ingest st data timestamp = Some (emit_all (st\<lparr>last_timestamp := Some timestamp, buffer := rest\<rparr>) frames)
      \<and> (log_file st \<noteq> Some ClosedFile \<longrightarrow>
           (\<exists>st'. ingest st data timestamp = Some (Inr st') \<and> buffer st' = rest
              \<and> signals st' = signals st @ map (packet_signal (st\<lparr>last_timestamp := Some timestamp\<rparr>)) frames
              \<and> log_lines st' = log_lines st @
                   (if log_file st = None then []
                    else map (packet_log_line (st\<lparr>last_timestamp := Some timestamp\<rparr>)) frames)))"
    if a: "buffer_enabled st" "end_marker st \<noteq> []"
      "parse_marker (start_marker st) = Inr start_byte" "start_byte \<noteq> []"
      "parse_marker (end_marker st) = Inr end_byte"
    and f: "frames = fst (spec_start_end_frames start_byte end_byte (keep_newest max_buffer_size (buffer st @ data)))"
    and r: "rest = snd (spec_start_end_frames start_byte end_byte (keep_newest max_buffer_size (buffer st @ data)))"
    for st data timestamp start_byte end_byte frames rest
  proof -
    let ?s = "st\<lparr>last_timestamp := Some timestamp, buffer := rest\<rparr>"
    have eq: "ingest st data timestamp = Some (emit_all ?s frames)"
      unfolding f r by (rule ingest_start_end[OF a])
    have sig: "packet_signal ?s = packet_signal (st\<lparr>last_timestamp := Some timestamp\<rparr>)"
      "packet_log_line ?s = packet_log_line (st\<lparr>last_timestamp := Some timestamp\<rparr>)"
      by (auto simp: packet_signal_def packet_log_line_def packet_text_def fun_eq_iff)
    have obs: "signals ?s = signals st" "log_lines ?s = log_lines st" "log_file ?s = log_file st"
      by (simp_all add: signals_def log_lines_def)
    show ?thesis
    proof (intro conjI impI)
      show "ingest st data timestamp = Some (emit_all ?s frames)" by (rule eq)
    next
      assume "log_file st \<noteq> Some ClosedFile"
      then have "log_file ?s \<noteq> Some ClosedFile" by simp
      from emit_all_effect[OF this, of frames] obtain st' where
        "emit_all ?s frames = Inr st'" "buffer st' = buffer ?s"
        "signals st' = signals ?s @ map (packet_signal ?s) frames"
        "log_lines st' = log_lines ?s @ (if log_file ?s = None then [] else map (packet_log_line ?s) frames)"
        by blast
      then show "\<exists>st'. ingest st data timestamp = Some (Inr st') \<and> buffer st' = rest
              \<and> signals st' = signals st @ map (packet_signal (st\<lparr>last_timestamp := Some timestamp\<rparr>)) frames
              \<and> log_lines st' = log_lines st @
                   (if log_file st = None then []
                    else map (packet_log_line (st\<lparr>last_timestamp := Some timestamp\<rparr>)) frames)"
        unfolding eq sig obs by simp
    qed
  qed
  note example = start_end_example
  show ?thesis
    using general example unfolding Let_def by blast
qed

theorem ingest_start_end_framing_witness:
  "buffer_enabled gilbarco_reader \<and> end_marker gilbarco_reader \<noteq> []
   \<and> parse_marker (start_marker gilbarco_reader) = Inr [0x02] \<and> [0x02 :: byte] \<noteq> []
   \<and> parse_marker (end_marker gilbarco_reader) = Inr [0x03]
   \<and> log_file gilbarco_reader \<noteq> Some ClosedFile
   \<and> (\<exists>st'. ingest gilbarco_reader [0x07, 0x02, 0x41, 0x03] ''09:30:00.000'' = Some (Inr st')
         \<and> buffer st' = []
         \<and> signals st' = [DataReceived ''RX1'' ''[09:30:00.000] RX1 02 41 03\<newline>''])"
proof -
  have h: "buffer_enabled gilbarco_reader \<and> end_marker gilbarco_reader \<noteq> []
      \<and> parse_marker (start_marker gilbarco_reader) = Inr [0x02] \<and> [0x02 :: byte] \<noteq> []
      \<and> parse_marker (end_marker gilbarco_reader) = Inr [0x03]"
    by (simp add: gilbarco_setup marker_bytes)
  have l: "log_file gilbarco_reader \<noteq> Some ClosedFile" by (simp add: gilbarco_setup)
  have w: "keep_newest max_buffer_size (buffer gilbarco_reader @ [0x07, 0x02, 0x41, 0x03])
      = [0x07, 0x02, 0x41, 0x03]"
    by (simp add: gilbarco_setup small_window)
  have f: "spec_start_end_frames [0x02] [0x03] [0x07, 0x02, 0x41, 0x03 :: byte]
      = ([[0x02, 0x41, 0x03]], [])"
    by code_simp
  have s: "signals gilbarco_reader = []" by (simp add: signals_def gilbarco_setup)
  have p: "packet_signal (gilbarco_reader\<lparr>last_timestamp := Some ''09:30:00.000''\<rparr>) [0x02, 0x41, 0x03]
      = DataReceived ''RX1'' ''[09:30:00.000] RX1 02 41 03\<newline>''"
    by code_simp
  from ingest_start_end_framing h l
  have "\<exists>st'. ingest gilbarco_reader [0x07, 0x02, 0x41, 0x03] ''09:30:00.000'' = Some (Inr st')
      \<and> buffer st' = snd (spec_start_end_frames [0x02] [0x03]
            (keep_newest max_buffer_size (buffer gilbarco_reader @ [0x07, 0x02, 0x41, 0x03])))
      \<and> signals st' = signals gilbarco_reader @
          map (packet_signal (gilbarco_reader\<lparr>last_timestamp := Some ''09:30:00.000''\<rparr>))
            (fst (spec_start_end_frames [0x02] [0x03]
               (keep_newest max_buffer_size (buffer gilbarco_reader @ [0x07, 0x02, 0x41, 0x03]))))"
    unfolding Let_def by blast
  then have "\<exists>st'. ingest gilbarco_reader [0x07, 0x02, 0x41, 0x03] ''09:30:00.000'' = Some (Inr st')
         \<and> buffer st' = []
         \<and> signals st' = [DataReceived ''RX1'' ''[09:30:00.000] RX1 02 41 03\<newline>'']"
    unfolding w f s by (simp add: p)
  with h l show ?thesis by blast
qed

lemma trailing_byte_frames:
  "spec_start_end_frames [0x02] [0x03] [0xFF, 0x02, 0x11, 0x22, 0x03, 0x99 :: byte]
     = ([[0x02, 0x11, 0x22, 0x03]], [])"
  by code_simp

lemma trailing_byte_emit:
  "emit_all (gilbarco_reader\<lparr>last_timestamp := Some ''12:00:00.000'', buffer := []\<rparr>)
      [[0x02, 0x11, 0x22, 0x03]]
   = Inr (gilbarco_reader\<lparr>last_timestamp := Some ''12:00:00.000'', buffer := [],
            events := [DataReceived ''RX1'' ''[12:00:00.000] RX1 02 11 22 03\<newline>'']\<rparr>)"
  by code_simp

lemma trailing_byte_example:
  "ingest gilbarco_reader [0xFF, 0x02, 0x11, 0x22, 0x03, 0x99] ''12:00:00.000''
     = Some (Inr (gilbarco_reader\<lparr>last_timestamp := Some ''12:00:00.000'', buffer := [],
          events := [DataReceived ''RX1'' ''[12:00:00.000] RX1 02 11 22 03\<newline>'']\<rparr>))"
proof -
  have "ingest gilbarco_reader [0xFF, 0x02, 0x11, 0x22, 0x03, 0x99] ''12:00:00.000''
    = Some (emit_all
      (gilbarco_reader\<lparr>last_timestamp := Some ''12:00:00.000'',
          buffer := snd (spec_start_end_frames [0x02] [0x03] (keep_newest max_buffer_size (buffer gilbarco_reader @ [0xFF, 0x02, 0x11, 0x22, 0x03, 0x99])))\<rparr>)
      (fst (spec_start_end_frames [0x02] [0x03] (keep_newest max_buffer_size (buffer gilbarco_reader @ [0xFF, 0x02, 0x11, 0x22, 0x03, 0x99])))))"
    by (rule ingest_start_end) (simp_all add: gilbarco_setup marker_bytes)
  moreover have "keep_newest max_buffer_size
      (buffer gilbarco_reader @ [0xFF, 0x02, 0x11, 0x22, 0x03, 0x99])
      = [0xFF, 0x02, 0x11, 0x22, 0x03, 0x99]"
    by (simp add: gilbarco_setup small_window)
  ultimately show ?thesis
    by (simp only: trailing_byte_frames fst_conv snd_conv trailing_byte_emit)
qed

text \<open>
  C2 as amended. With the markers \<open>02\<close> and \<open>03\<close> and an empty buffer, the chunk
  \<open>FF 02 11 22 03 99\<close> gives exactly one packet, \<open>02 11 22 03\<close>. The leading \<open>FF\<close> is
  discarded, and so is the trailing \<open>99\<close>: after the packet the loop runs once more, finds
  no start marker in what is left and empties the buffer.
\<close>

theorem gilbarco_frame_between_stray_bytes:
  "buffer gilbarco_reader = []
   \<and> ingest gilbarco_reader [0xFF, 0x02, 0x11, 0x22, 0x03, 0x99] ''12:00:00.000''
       = Some (Inr (gilbarco_reader\<lparr>last_timestamp := Some ''12:00:00.000'', buffer := [],
            events := [DataReceived ''RX1'' ''[12:00:00.000] RX1 02 11 22 03\<newline>'']\<rparr>))"
  using trailing_byte_example by (simp add: gilbarco_setup)

text \<open>The claim as stated has the trailing \<open>99\<close> kept in the buffer; it is not.\<close>

theorem gilbarco_trailing_byte_not_retained:
  "map_option (map_sum id buffer)
     (ingest gilbarco_reader [0xFF, 0x02, 0x11, 0x22, 0x03, 0x99] ''12:00:00.000'')
   \<noteq> Some (Inr [0x99])"
  by (simp add: trailing_byte_example)

section \<open>End-marker-only framing\<close>

lemma emit_all_observed:
  assumes "log_file st \<noteq> Some ClosedFile"
  shows "\<exists>st'. emit_all (st\<lparr>last_timestamp := Some ts, buffer := rest\<rparr>) frames = Inr st'
     \<and> buffer st' = rest
     \<and> same_setup (st\<lparr>last_timestamp := Some ts\<rparr>) st'
     \<and> signals st' = signals st @ map (packet_signal (st\<lparr>last_timestamp := Some ts\<rparr>)) frames
     \<and> log_lines st' = log_lines st @
          (if log_file st = None then []
           else map (packet_log_line (st\<lparr>last_timestamp := Some ts\<rparr>)) frames)"
proof -
  let ?s = "st\<lparr>last_timestamp := Some ts, buffer := rest\<rparr>"
  have sig: "packet_signal ?s = packet_signal (st\<lparr>last_timestamp := Some ts\<rparr>)"
    "packet_log_line ?s = packet_log_line (st\<lparr>last_timestamp := Some ts\<rparr>)"
    by (auto simp: packet_signal_def packet_log_line_def packet_text_def fun_eq_iff)
  have obs: "signals ?s = signals st" "log_lines ?s = log_lines st" "log_file ?s = log_file st"
    by (simp_all add: signals_def log_lines_def)
  have ss: "\<And>x. same_setup ?s x = same_setup (st\<lparr>last_timestamp := Some ts\<rparr>) x"
    by (simp add: same_setup_def)
  from assms have "log_file ?s \<noteq> Some ClosedFile" by simp
  from emit_all_effect[OF this, of frames] show ?thesis
    unfolding sig obs ss by simp
qed

lemma ingest_end_only:
  assumes "buffer_enabled st" "end_marker st \<noteq> []" "start_marker st = []"
    "parse_marker (end_marker st) = Inr eb"
  shows "ingest st data ts =
    Some (emit_all
      (st\<lparr>last_timestamp := Some ts,
          buffer := snd (spec_end_only_frames eb (keep_newest max_buffer_size (buffer st @ data)))\<rparr>)
      (fst (spec_end_only_frames eb (keep_newest max_buffer_size (buffer st @ data)))))"
proof -
  from parse_marker_nonempty[OF assms(4,2)] have ne: "eb \<noteq> []" .
  have p: "parse_marker [] = Inr []" by (simp add: parse_marker_def)
  show ?thesis
    using assms unfolding ingest_def Let_def
    by (simp add: end_loop_spec[OF ne] keep_newest_def p)
qed

lemma end_marker_setup:
  "buffer_enabled end_marker_reader" "end_marker end_marker_reader = ''0x03''"
  "start_marker end_marker_reader = []" "buffer end_marker_reader = []"
  "log_file end_marker_reader = None" "source_label end_marker_reader = ''RX1''"
  "events end_marker_reader = []"
  by (simp_all add: end_marker_reader_def init_reader_def)

lemma two_chunks_first:
  "ingest end_marker_reader [0xAA, 0xBB, 0x03] ''12:00:00.000''
     = Some (Inr (end_marker_reader\<lparr>last_timestamp := Some ''12:00:00.000'', buffer := [],
          events := [DataReceived ''RX1'' ''[12:00:00.000] RX1 AA BB 03\<newline>'']\<rparr>))"
proof -
  have "ingest end_marker_reader [0xAA, 0xBB, 0x03] ''12:00:00.000''
    = Some (emit_all
      (end_marker_reader\<lparr>last_timestamp := Some ''12:00:00.000'',
          buffer := snd (spec_end_only_frames [0x03] (keep_newest max_buffer_size (buffer end_marker_reader @ [0xAA, 0xBB, 0x03])))\<rparr>)
      (fst (spec_end_only_frames [0x03] (keep_newest max_buffer_size (buffer end_marker_reader @ [0xAA, 0xBB, 0x03])))))"
    by (rule ingest_end_only) (simp_all add: end_marker_setup marker_bytes)
  moreover have "keep_newest max_buffer_size (buffer end_marker_reader @ [0xAA, 0xBB, 0x03])
      = [0xAA, 0xBB, 0x03]"
    by (simp add: end_marker_setup small_window)
  moreover have "spec_end_only_frames [0x03] [0xAA, 0xBB, 0x03 :: byte] = ([[0xAA, 0xBB, 0x03]], [])"
    by code_simp
  moreover have "emit_all (end_marker_reader\<lparr>last_timestamp := Some ''12:00:00.000'', buffer := []\<rparr>)
      [[0xAA, 0xBB, 0x03]]
    = Inr (end_marker_reader\<lparr>last_timestamp := Some ''12:00:00.000'', buffer := [],
          events := [DataReceived ''RX1'' ''[12:00:00.000] RX1 AA BB 03\<newline>'']\<rparr>)"
    by code_simp
  ultimately show ?thesis by (simp only: fst_conv snd_conv)
qed

lemma two_chunks_second:
  "ingest (end_marker_reader\<lparr>last_timestamp := Some ''12:00:00.000'', buffer := [],
          events := [DataReceived ''RX1'' ''[12:00:00.000] RX1 AA BB 03\<newline>'']\<rparr>)
      [0xCC, 0x03] ''12:00:00.050''
     = Some (Inr (end_marker_reader\<lparr>last_timestamp := Some ''12:00:00.050'', buffer := [],
          events := [DataReceived ''RX1'' ''[12:00:00.000] RX1 AA BB 03\<newline>'',
                     DataReceived ''RX1'' ''[12:00:00.050] RX1 CC 03\<newline>'']\<rparr>))"
    (is "ingest ?r _ _ = _")
proof -
  have "ingest ?r [0xCC, 0x03] ''12:00:00.050''
    = Some (emit_all
      (?r\<lparr>last_timestamp := Some ''12:00:00.050'',
          buffer := snd (spec_end_only_frames [0x03] (keep_newest max_buffer_size (buffer ?r @ [0xCC, 0x03])))\<rparr>)
      (fst (spec_end_only_frames [0x03] (keep_newest max_buffer_size (buffer ?r @ [0xCC, 0x03])))))"
    by (rule ingest_end_only) (simp_all add: end_marker_setup marker_bytes)
  moreover have "keep_newest max_buffer_size (buffer ?r @ [0xCC, 0x03]) = [0xCC, 0x03]"
    by (simp add: small_window)
  moreover have "spec_end_only_frames [0x03] [0xCC, 0x03 :: byte] = ([[0xCC, 0x03]], [])"
    by code_simp
  moreover have "emit_all (?r\<lparr>last_timestamp := Some ''12:00:00.050'', buffer := []\<rparr>) [[0xCC, 0x03]]
    = Inr (end_marker_reader\<lparr>last_timestamp := Some ''12:00:00.050'', buffer := [],
          events := [DataReceived ''RX1'' ''[12:00:00.000] RX1 AA BB 03\<newline>'',
                     DataReceived ''RX1'' ''[12:00:00.050] RX1 CC 03\<newline>'']\<rparr>)"
    by code_simp
  ultimately show ?thesis by (simp only: fst_conv snd_conv)
qed


text \<open>
  C5. In end-marker-only mode (buffering on, no start marker, the end marker resolved) one
  read appends the chunk, keeps the newest bytes within the cap and splits at every
  occurrence of the end marker: the frames of \<open>spec_end_only_frames\<close>, each ending with
  the marker, are published in order (none, one or many), and what follows the last
  marker stays in the buffer. In particular the chunks \<open>AA BB 03\<close> and \<open>CC 03\<close>, read one
  after the other from an empty buffer, give the packets \<open>AA BB 03\<close> and \<open>CC 03\<close>, in
  this order.
\<close>

theorem ingest_end_marker_only_framing:
  "(\<forall>st data timestamp end_byte.
      buffer_enabled st \<and> start_marker st = [] \<and> end_marker st \<noteq> []
      \<and> parse_marker (end_marker st) = Inr end_byte \<longrightarrow>
      (let window = keep_newest max_buffer_size (buffer st @ data);
           frames = fst (spec_end_only_frames end_byte window);
           rest = snd (spec_end_only_frames end_byte window);
           st0 = st\<lparr>last_timestamp := Some timestamp\<rparr>
       in ingest st data timestamp = Some (emit_all (st0\<lparr>buffer := rest\<rparr>) frames)
          \<and> (log_file st \<noteq> Some ClosedFile \<longrightarrow>
               (\<exists>st'. ingest st data timestamp = Some (Inr st') \<and> buffer st' = rest
                  \<and> signals st' = signals st @ map (packet_signal st0) frames
                  \<and> log_lines st' = log_lines st @
                       (if log_file st = None then [] else map (packet_log_line st0) frames)))))
   \<and> ingest_all end_marker_reader
        [([0xAA, 0xBB, 0x03], ''12:00:00.000''), ([0xCC, 0x03], ''12:00:00.050'')]
       = Some (Inr (end_marker_reader\<lparr>last_timestamp := Some ''12:00:00.050'', buffer := [],
            events := [DataReceived ''RX1'' ''[12:00:00.000] RX1 AA BB 03\<newline>'',
                       DataReceived ''RX1'' ''[12:00:00.050] RX1 CC 03\<newline>'']\<rparr>))"
proof -
  have general: "ingest st data timestamp = Some (emit_all (st\<lparr>last_timestamp := Some timestamp, buffer := rest\<rparr>) frames)
      \<and> (log_file st \<noteq> Some ClosedFile \<longrightarrow>
           (\<exists>st'. ingest st data timestamp = Some (Inr st') \<and> buffer st' = rest
              \<and> signals st' = signals st @ map (packet_signal (st\<lparr>last_timestamp := Some timestamp\<rparr>)) frames
              \<and> log_lines st' = log_lines st @
                   (if log_file st = None then []
                    else map (packet_log_line (st\<lparr>last_timestamp := Some timestamp\<rparr>)) frames)))"
    if a: "buffer_enabled st" "end_marker st \<noteq> []" "start_marker st = []"
      "parse_marker (end_marker st) = Inr end_byte"
    and f: "frames = fst (spec_end_only_frames end_byte (keep_newest max_buffer_size (buffer st @ data)))"
    and r: "rest = snd (spec_end_only_frames end_byte (keep_newest max_buffer_size (buffer st @ data)))"
    for st data timestamp end_byte frames rest
  proof -
    have eq: "ingest st data timestamp = Some (emit_all (st\<lparr>last_timestamp := Some timestamp, buffer := rest\<rparr>) frames)"
      unfolding f r by (rule ingest_end_only[OF a])
    show ?thesis
    proof (intro conjI impI)
      show "ingest st data timestamp = Some (emit_all (st\<lparr>last_timestamp := Some timestamp, buffer := rest\<rparr>) frames)"
        by (rule eq)
    next
      assume "log_file st \<noteq> Some ClosedFile"
      from emit_all_observed[OF this, where ts=timestamp and rest=rest and frames=frames]
      show "\<exists>st'. ingest st data timestamp = Some (Inr st') \<and> buffer st' = rest
              \<and> signals st' = signals st @ map (packet_signal (st\<lparr>last_timestamp := Some timestamp\<rparr>)) frames
              \<and> log_lines st' = log_lines st @
                   (if log_file st = None then []
                    else map (packet_log_line (st\<lparr>last_timestamp := Some timestamp\<rparr>)) frames)"
        unfolding eq by auto
    qed
  qed
  have example: "ingest_all end_marker_reader
        [([0xAA, 0xBB, 0x03], ''12:00:00.000''), ([0xCC, 0x03], ''12:00:00.050'')]
       = Some (Inr (end_marker_reader\<lparr>last_timestamp := Some ''12:00:00.050'', buffer := [],
            events := [DataReceived ''RX1'' ''[12:00:00.000] RX1 AA BB 03\<newline>'',
                       DataReceived ''RX1'' ''[12:00:00.050] RX1 CC 03\<newline>'']\<rparr>))"
    by (simp add: two_chunks_first two_chunks_second)
  show ?thesis
    using general example unfolding Let_def by blast
qed


theorem ingest_end_marker_only_framing_witness:
  "buffer_enabled end_marker_reader \<and> start_marker end_marker_reader = []
   \<and> end_marker end_marker_reader \<noteq> []
   \<and> parse_marker (end_marker end_marker_reader) = Inr [0x03]
   \<and> log_file end_marker_reader \<noteq> Some ClosedFile
   \<and> (\<exists>st'. ingest end_marker_reader [0x10, 0x03, 0x20] ''09:30:00.000'' = Some (Inr st')
         \<and> buffer st' = [0x20]
         \<and> signals st' = [DataReceived ''RX1'' ''[09:30:00.000] RX1 10 03\<newline>''])"
proof -
  have h: "buffer_enabled end_marker_reader \<and> start_marker end_marker_reader = []
      \<and> end_marker end_marker_reader \<noteq> []
      \<and> parse_marker (end_marker end_marker_reader) = Inr [0x03]"
    by (simp add: end_marker_setup marker_bytes)
  have l: "log_file end_marker_reader \<noteq> Some ClosedFile" by (simp add: end_marker_setup)
  have w: "keep_newest max_buffer_size (buffer end_marker_reader @ [0x10, 0x03, 0x20])
      = [0x10, 0x03, 0x20]"
    by (simp add: end_marker_setup small_window)
  have f: "spec_end_only_frames [0x03] [0x10, 0x03, 0x20 :: byte] = ([[0x10, 0x03]], [0x20])"
    by code_simp
  have s: "signals end_marker_reader = []" by (simp add: signals_def end_marker_setup)
  have p: "packet_signal (end_marker_reader\<lparr>last_timestamp := Some ''09:30:00.000''\<rparr>) [0x10, 0x03]
      = DataReceived ''RX1'' ''[09:30:00.000] RX1 10 03\<newline>''"
    by code_simp
  from ingest_end_marker_only_framing h l
  have "\<exists>st'. ingest end_marker_reader [0x10, 0x03, 0x20] ''09:30:00.000'' = Some (Inr st')
      \<and> buffer st' = snd (spec_end_only_frames [0x03]
            (keep_newest max_buffer_size (buffer end_marker_reader @ [0x10, 0x03, 0x20])))
      \<and> signals st' = signals end_marker_reader @
          map (packet_signal (end_marker_reader\<lparr>last_timestamp := Some ''09:30:00.000''\<rparr>))
            (fst (spec_end_only_frames [0x03]
               (keep_newest max_buffer_size (buffer end_marker_reader @ [0x10, 0x03, 0x20]))))"
    unfolding Let_def by blast
  then have "\<exists>st'. ingest end_marker_reader [0x10, 0x03, 0x20] ''09:30:00.000'' = Some (Inr st')
         \<and> buffer st' = [0x20]
         \<and> signals st' = [DataReceived ''RX1'' ''[09:30:00.000] RX1 10 03\<newline>'']"
    unfolding w f s by (simp add: p)
  with h l show ?thesis by blast
qed

section \<open>The size cap of the buffer\<close>

lemma keep_newest_length: "length (keep_newest n b) \<le> n"
  by (simp add: keep_newest_def)

lemma keep_newest_suffix: "suffix (keep_newest n b) b"
  by (simp add: keep_newest_def suffix_drop)

lemma keep_newest_id: "length b \<le> n \<Longrightarrow> keep_newest n b = b"
  by (simp add: keep_newest_def)

lemma keep_newest_append: "keep_newest n (keep_newest n a @ c) = keep_newest n (a @ c)"
proof (cases "length a \<le> n")
  case True
  then show ?thesis by (simp add: keep_newest_def)
next
  case False
  then have la: "n < length a" by simp
  show ?thesis
  proof (cases "length c \<le> n")
    case True
    with la show ?thesis by (simp add: keep_newest_def add.commute)
  next
    case False
    with la show ?thesis by (simp add: keep_newest_def add.commute)
  qed
qed

lemma spec_start_end_suffix: "suffix (snd (spec_start_end_frames sb eb b)) b"
proof (induction sb eb b rule: spec_start_end_frames.induct)
  case (1 sb eb b)
  show ?case
  proof (cases "sb = []")
    case True
    then show ?thesis by (subst spec_start_end_frames.simps) simp
  next
    case ne: False
    show ?thesis
    proof (cases "first_offset sb b 0")
      case None
      with ne show ?thesis by (subst spec_start_end_frames.simps) simp
    next
      case (Some i)
      show ?thesis
      proof (cases "first_offset eb (drop i b) (length sb)")
        case None
        with ne Some show ?thesis
          by (subst spec_start_end_frames.simps) (simp add: suffix_drop)
      next
        case (Some j)
        from "1.IH"[OF ne \<open>first_offset sb b 0 = Some i\<close> refl Some refl]
        have "suffix (snd (spec_start_end_frames sb eb (drop (j + length eb) (drop i b))))
            (drop (j + length eb) (drop i b))" .
        then have "suffix (snd (spec_start_end_frames sb eb (drop (j + length eb) (drop i b)))) b"
          by (meson suffix_drop suffix_order.trans)
        with ne \<open>first_offset sb b 0 = Some i\<close> Some show ?thesis
          by (subst spec_start_end_frames.simps)
             (simp add: Let_def split_beta del: drop_drop)
      qed
    qed
  qed
qed

lemma spec_end_only_suffix: "suffix (snd (spec_end_only_frames eb b)) b"
proof (induction eb b rule: spec_end_only_frames.induct)
  case (1 eb b)
  show ?case
  proof (cases "eb = []")
    case True
    then show ?thesis by (subst spec_end_only_frames.simps) simp
  next
    case ne: False
    show ?thesis
    proof (cases "first_offset eb b 0")
      case None
      with ne show ?thesis by (subst spec_end_only_frames.simps) simp
    next
      case (Some i)
      from "1.IH"[OF ne Some refl]
      have "suffix (snd (spec_end_only_frames eb (drop (i + length eb) b))) (drop (i + length eb) b)" .
      then have "suffix (snd (spec_end_only_frames eb (drop (i + length eb) b))) b"
        by (meson suffix_drop suffix_order.trans)
      with ne Some show ?thesis
        by (subst spec_end_only_frames.simps) (simp add: Let_def split_beta)
    qed
  qed
qed

lemma spec_frames_suffix: "suffix (snd (spec_frames sb eb b)) b"
  by (simp add: spec_frames_def spec_start_end_suffix spec_end_only_suffix)


lemma first_offset_None_iff:
  "first_offset m b 0 = None \<longleftrightarrow> (\<forall>i\<le>length b. \<not> prefix m (drop i b))"
  unfolding first_offset_def find_None_iff occurs_at_def
  by (auto simp del: upt_Suc simp: less_Suc_eq_le)

lemma absent_suffix:
  assumes "first_offset m b 0 = None" "suffix a b"
  shows "first_offset m a 0 = None"
proof -
  from assms(2) obtain z where b: "b = z @ a" by (auto simp: suffix_def)
  from assms(1) have all: "\<forall>i\<le>length b. \<not> prefix m (drop i b)"
    by (simp only: first_offset_None_iff)
  have "\<not> prefix m (drop i a)" if i: "i \<le> length a" for i
  proof -
    have "length z + i \<le> length b" using i by (simp add: b)
    with all have "\<not> prefix m (drop (length z + i) b)" by blast
    moreover have "drop (length z + i) b = drop i a" by (simp add: b)
    ultimately show ?thesis by simp
  qed
  then show ?thesis by (simp only: first_offset_None_iff) blast
qed

lemma absent_prefix:
  assumes "first_offset m (p @ q) 0 = None"
  shows "first_offset m p 0 = None"
proof -
  from assms have all: "\<forall>i\<le>length (p @ q). \<not> prefix m (drop i (p @ q))"
    by (simp only: first_offset_None_iff)
  have "\<not> prefix m (drop i p)" if i: "i \<le> length p" for i
  proof
    assume "prefix m (drop i p)"
    then have "prefix m (drop i p @ q)" by (rule prefix_prefix)
    moreover have "drop i (p @ q) = drop i p @ q" using i by simp
    moreover have "i \<le> length (p @ q)" using i by simp
    ultimately show False using all by metis
  qed
  then show ?thesis by (simp only: first_offset_None_iff) blast
qed

lemma spec_end_only_absent:
  "first_offset eb b 0 = None \<Longrightarrow> spec_end_only_frames eb b = ([], b)"
  by (subst spec_end_only_frames.simps) simp

text \<open>Buffers the framing rules leave as they are.\<close>

lemma spec_start_end_settled:
  assumes "sb \<noteq> []"
  shows "spec_start_end_frames sb eb (snd (spec_start_end_frames sb eb b))
     = ([], snd (spec_start_end_frames sb eb b))"
proof (induction sb eb b rule: spec_start_end_frames.induct)
  case (1 sb eb b)
  show ?case
  proof (cases "sb = []")
    case True
    then show ?thesis by (subst (1 2 3) spec_start_end_frames.simps) simp
  next
    case ne: False
    have empty: "spec_start_end_frames sb eb [] = ([], [])"
      using ne by (subst spec_start_end_frames.simps) (simp add: first_offset_def occurs_at_def)
    show ?thesis
    proof (cases "first_offset sb b 0")
      case None
      with ne empty show ?thesis by (subst (2 3) spec_start_end_frames.simps) simp
    next
      case (Some i)
      have occ: "occurs_at sb b i"
        using Some unfolding first_offset_def by (auto simp: find_Some_iff simp del: upt_Suc)
      show ?thesis
      proof (cases "first_offset eb (drop i b) (length sb)")
        case None
        have here: "first_offset sb (drop i b) 0 = Some 0"
          using occ unfolding first_offset_def occurs_at_def
          by (simp add: upt_conv_Cons del: upt_Suc)
        have kept: "spec_start_end_frames sb eb (drop i b) = ([], drop i b)"
          using ne here None by (subst spec_start_end_frames.simps) simp
        from ne Some None have "snd (spec_start_end_frames sb eb b) = drop i b"
          by (subst spec_start_end_frames.simps) simp
        with kept show ?thesis by simp
      next
        case (Some j)
        from ne \<open>first_offset sb b 0 = Some i\<close> Some
        have "snd (spec_start_end_frames sb eb b)
            = snd (spec_start_end_frames sb eb (drop (j + length eb) (drop i b)))"
          by (subst spec_start_end_frames.simps) (simp add: Let_def split_beta del: drop_drop)
        with "1.IH"[OF ne \<open>first_offset sb b 0 = Some i\<close> refl Some refl]
        show ?thesis by simp
      qed
    qed
  qed
qed

lemma spec_end_only_settled:
  "spec_end_only_frames eb (snd (spec_end_only_frames eb b))
     = ([], snd (spec_end_only_frames eb b))"
proof (induction eb b rule: spec_end_only_frames.induct)
  case (1 eb b)
  show ?case
  proof (cases "eb = []")
    case True
    then show ?thesis by (subst (1 2 3) spec_end_only_frames.simps) simp
  next
    case ne: False
    show ?thesis
    proof (cases "first_offset eb b 0")
      case None
      then have "spec_end_only_frames eb b = ([], b)" by (rule spec_end_only_absent)
      then show ?thesis by simp
    next
      case (Some i)
      from ne Some have "snd (spec_end_only_frames eb b)
          = snd (spec_end_only_frames eb (drop (i + length eb) b))"
        by (subst spec_end_only_frames.simps) (simp add: Let_def split_beta)
      with "1.IH"[OF ne Some refl] show ?thesis by simp
    qed
  qed
qed

lemma spec_frames_settled:
  "spec_frames sb eb (snd (spec_frames sb eb b)) = ([], snd (spec_frames sb eb b))"
  by (simp add: spec_frames_def spec_start_end_settled spec_end_only_settled)

lemma spec_frames_empty:
  assumes "sb \<noteq> [] \<or> eb \<noteq> []"
  shows "spec_frames sb eb [] = ([], [])"
proof (cases "sb = []")
  case True
  with assms have "first_offset eb [] 0 = None" by (simp add: first_offset_def occurs_at_def)
  with True show ?thesis by (simp add: spec_frames_def spec_end_only_absent)
next
  case False
  then show ?thesis
    by (simp add: spec_frames_def, subst spec_start_end_frames.simps)
       (simp add: first_offset_def occurs_at_def)
qed

lemma empty_marker: "parse_marker [] = Inr []"
  by (simp add: parse_marker_def)

lemma emit_packet_config:
  assumes "emit_packet st p = Inr st'"
  shows "buffer st' = buffer st \<and> buffer_enabled st' = buffer_enabled st
     \<and> start_marker st' = start_marker st \<and> end_marker st' = end_marker st"
  using assms
  by (auto simp: emit_packet_def log_message_def rotate_log_file_def open_new_log_file_def Let_def
      split: option.splits log_handle.splits if_splits)

lemma emit_all_config:
  "emit_all st ps = Inr st' \<Longrightarrow>
     buffer st' = buffer st \<and> buffer_enabled st' = buffer_enabled st
     \<and> start_marker st' = start_marker st \<and> end_marker st' = end_marker st"
proof (induction ps arbitrary: st)
  case Nil
  then show ?case by simp
next
  case (Cons p ps)
  then obtain s1 where s1: "emit_packet st p = Inr s1" "emit_all s1 ps = Inr st'"
    by (auto split: sum.splits)
  from emit_packet_config[OF s1(1)] Cons.IH[OF s1(2)] show ?case by simp
qed

lemma ingest_buffering:
  assumes "buffer_enabled st" "end_marker st \<noteq> []"
    "parse_marker (start_marker st) = Inr sb" "parse_marker (end_marker st) = Inr eb"
  shows "ingest st data ts =
    Some (emit_all
      (st\<lparr>last_timestamp := Some ts,
          buffer := snd (spec_frames sb eb (keep_newest max_buffer_size (buffer st @ data)))\<rparr>)
      (fst (spec_frames sb eb (keep_newest max_buffer_size (buffer st @ data)))))"
proof (cases "sb = []")
  case True
  with assms(3) have "start_marker st = []" using parse_marker_nonempty by blast
  from ingest_end_only[OF assms(1,2) this assms(4)] True show ?thesis
    by (simp add: spec_frames_def)
next
  case False
  from ingest_start_end[OF assms(1,2,3) False assms(4)] False show ?thesis
    by (simp add: spec_frames_def)
qed

lemma ingest_buffering_step:
  assumes "buffer_enabled st" "end_marker st \<noteq> []" "ingest st data ts = Some (Inr st')"
  shows "length (buffer st') \<le> max_buffer_size \<and> suffix (buffer st') (buffer st @ data)
     \<and> buffer_enabled st' \<and> end_marker st' \<noteq> []"
proof -
  from assms obtain sb eb where p: "parse_marker (start_marker st) = Inr sb"
      "parse_marker (end_marker st) = Inr eb"
    unfolding ingest_def Let_def by (auto split: sum.splits)
  let ?w = "keep_newest max_buffer_size (buffer st @ data)"
  from ingest_buffering[OF assms(1,2) p, of data ts] assms(3)
  have e: "emit_all (st\<lparr>last_timestamp := Some ts, buffer := snd (spec_frames sb eb ?w)\<rparr>)
      (fst (spec_frames sb eb ?w)) = Inr st'" by simp
  from emit_all_config[OF e] assms(1,2)
  have b: "buffer st' = snd (spec_frames sb eb ?w)"
    and c: "buffer_enabled st'" "end_marker st' \<noteq> []" by simp_all
  have sw: "suffix (buffer st') ?w" unfolding b by (rule spec_frames_suffix)
  then have "length (buffer st') \<le> length ?w" by (rule suffix_length_le)
  also have "\<dots> \<le> max_buffer_size" by (rule keep_newest_length)
  finally have l: "length (buffer st') \<le> max_buffer_size" .
  from sw keep_newest_suffix have "suffix (buffer st') (buffer st @ data)"
    by (rule suffix_order.trans)
  with l c show ?thesis by simp
qed

lemma ingest_all_bounded:
  assumes "buffer_enabled st" "end_marker st \<noteq> []" "ingest_all st reads = Some (Inr st')"
  shows "(reads \<noteq> [] \<longrightarrow> length (buffer st') \<le> max_buffer_size)
     \<and> suffix (buffer st') (buffer st @ concat (map fst reads))"
  using assms
proof (induction reads arbitrary: st)
  case Nil
  then show ?case by simp
next
  case (Cons r reads)
  obtain d t where r: "r = (d, t)" by (cases r)
  from Cons.prems(3) obtain s1 where s1: "ingest st d t = Some (Inr s1)"
      "ingest_all s1 reads = Some (Inr st')"
    unfolding r by (auto split: option.splits sum.splits)
  from ingest_buffering_step[OF Cons.prems(1,2) s1(1)]
  have st: "length (buffer s1) \<le> max_buffer_size" "suffix (buffer s1) (buffer st @ d)"
    "buffer_enabled s1" "end_marker s1 \<noteq> []" by simp_all
  from Cons.IH[OF st(3,4) s1(2)]
  have ih: "reads \<noteq> [] \<longrightarrow> length (buffer st') \<le> max_buffer_size"
    "suffix (buffer st') (buffer s1 @ concat (map fst reads))" by simp_all
  have len: "length (buffer st') \<le> max_buffer_size"
  proof (cases "reads = []")
    case True
    with s1(2) st(1) show ?thesis by simp
  next
    case False
    with ih(1) show ?thesis by simp
  qed
  from st(2) have "suffix (buffer s1 @ concat (map fst reads)) ((buffer st @ d) @ concat (map fst reads))"
    by (simp only: same_suffix_suffix)
  with ih(2) have "suffix (buffer st') ((buffer st @ d) @ concat (map fst reads))"
    by (rule suffix_order.trans)
  with len show ?case by (simp add: r)
qed

lemma ingest_sliding_step:
  assumes "buffer_enabled st" "start_marker st = []" "end_marker st \<noteq> []"
    "parse_marker (end_marker st) = Inr eb"
    "first_offset eb (buffer st @ data) 0 = None"
  shows "ingest st data ts = Some (Inr (st\<lparr>last_timestamp := Some ts,
            buffer := keep_newest max_buffer_size (buffer st @ data)\<rparr>))"
proof -
  have "first_offset eb (keep_newest max_buffer_size (buffer st @ data)) 0 = None"
    using assms(5) keep_newest_suffix by (rule absent_suffix)
  then have "spec_end_only_frames eb (keep_newest max_buffer_size (buffer st @ data))
      = ([], keep_newest max_buffer_size (buffer st @ data))"
    by (rule spec_end_only_absent)
  with ingest_end_only[OF assms(1,3,2,4), of data ts] show ?thesis by simp
qed

lemma ingest_all_sliding:
  assumes "buffer_enabled st" "start_marker st = []" "end_marker st \<noteq> []"
    "parse_marker (end_marker st) = Inr eb" "reads \<noteq> []"
    "first_offset eb (buffer st @ concat (map fst reads)) 0 = None"
  shows "\<exists>st'. ingest_all st reads = Some (Inr st')
     \<and> buffer st' = keep_newest max_buffer_size (buffer st @ concat (map fst reads))"
  using assms
proof (induction reads arbitrary: st)
  case Nil
  then show ?case by simp
next
  case (Cons r reads)
  obtain d t where r: "r = (d, t)" by (cases r)
  let ?s1 = "st\<lparr>last_timestamp := Some t, buffer := keep_newest max_buffer_size (buffer st @ d)\<rparr>"
  from Cons.prems(6) have all: "first_offset eb ((buffer st @ d) @ concat (map fst reads)) 0 = None"
    by (simp add: r)
  then have "first_offset eb (buffer st @ d) 0 = None" by (rule absent_prefix)
  from ingest_sliding_step[OF Cons.prems(1,2,3,4) this, of t]
  have i: "ingest st d t = Some (Inr ?s1)" .
  show ?case
  proof (cases "reads = []")
    case True
    with i show ?thesis by (simp add: r)
  next
    case False
    have "suffix (keep_newest max_buffer_size (buffer st @ d) @ concat (map fst reads))
        ((buffer st @ d) @ concat (map fst reads))"
      using keep_newest_suffix by (simp only: same_suffix_suffix)
    with all have "first_offset eb (buffer ?s1 @ concat (map fst reads)) 0 = None"
      by (simp add: absent_suffix)
    with Cons.IH[of ?s1] Cons.prems(1,2,3,4) False
    obtain st' where st': "ingest_all ?s1 reads = Some (Inr st')"
      "buffer st' = keep_newest max_buffer_size (buffer ?s1 @ concat (map fst reads))"
      by auto
    from st'(2) have "buffer st' = keep_newest max_buffer_size ((buffer st @ d) @ concat (map fst reads))"
      by (simp add: keep_newest_append)
    with st'(1) i show ?thesis by (simp add: r)
  qed
qed

lemma cap_positive: "0 < max_buffer_size"
  by (simp add: max_buffer_size_def)

lemma first_offset_absent:
  assumes "x \<notin> set b"
  shows "first_offset [x] b s = None"
proof -
  have "\<not> occurs_at [x] b i" for i
  proof
    assume "occurs_at [x] b i"
    then have "prefix [x] (drop i b)" by (simp add: occurs_at_def)
    then obtain r where "drop i b = x # r" by (auto simp: prefix_def)
    then have "x \<in> set (drop i b)" by simp
    then have "x \<in> set b" by (rule in_set_dropD)
    with assms show False by simp
  qed
  then show ?thesis unfolding first_offset_def by (simp add: find_None_iff del: upt_Suc)
qed

lemma first_offset_here:
  assumes "prefix m b"
  shows "first_offset m b 0 = Some 0"
  using assms unfolding first_offset_def occurs_at_def
  by (simp add: upt_conv_Cons del: upt_Suc)

lemma keep_newest_full:
  assumes "0 < n"
  shows "keep_newest n (replicate n a @ [b]) = replicate (n - 1) a @ [b]"
  using assms by (simp add: keep_newest_def)

lemma spec_end_only_conserves:
  "concat (fst (spec_end_only_frames eb b)) @ snd (spec_end_only_frames eb b) = b"
proof (induction eb b rule: spec_end_only_frames.induct)
  case (1 eb b)
  show ?case
  proof (cases "eb = []")
    case True
    then show ?thesis by (subst (1 2) spec_end_only_frames.simps) simp
  next
    case ne: False
    show ?thesis
    proof (cases "first_offset eb b 0")
      case None
      then have "spec_end_only_frames eb b = ([], b)" by (rule spec_end_only_absent)
      then show ?thesis by simp
    next
      case (Some i)
      from ne Some have eq: "spec_end_only_frames eb b
          = (take (i + length eb) b # fst (spec_end_only_frames eb (drop (i + length eb) b)),
             snd (spec_end_only_frames eb (drop (i + length eb) b)))"
        by (subst spec_end_only_frames.simps) (simp add: Let_def split_beta)
      from "1.IH"[OF ne Some refl] show ?thesis unfolding eq by simp
    qed
  qed
qed

lemma ingest_all_keeps_setup:
  assumes "buffer_enabled st" "end_marker st \<noteq> []"
    "parse_marker (start_marker st) = Inr sb" "parse_marker (end_marker st) = Inr eb"
    "log_file st \<noteq> Some ClosedFile"
  shows "\<exists>st'. ingest_all st reads = Some (Inr st') \<and> buffer_enabled st'
     \<and> start_marker st' = start_marker st \<and> end_marker st' = end_marker st
     \<and> log_file st' \<noteq> Some ClosedFile"
  using assms
proof (induction reads arbitrary: st)
  case Nil
  then show ?case by simp
next
  case (Cons r reads)
  obtain d t where r: "r = (d, t)" by (cases r)
  let ?w = "keep_newest max_buffer_size (buffer st @ d)"
  from emit_all_observed[OF Cons.prems(5), where ts=t and rest="snd (spec_frames sb eb ?w)"
      and frames="fst (spec_frames sb eb ?w)"]
  obtain s1 where s1: "emit_all (st\<lparr>last_timestamp := Some t, buffer := snd (spec_frames sb eb ?w)\<rparr>)
        (fst (spec_frames sb eb ?w)) = Inr s1"
      "same_setup (st\<lparr>last_timestamp := Some t\<rparr>) s1" by blast
  from ingest_buffering[OF Cons.prems(1,2,3,4), of d t] s1(1)
  have i: "ingest st d t = Some (Inr s1)" by simp
  from s1(2) Cons.prems have k: "buffer_enabled s1" "end_marker s1 \<noteq> []"
    "parse_marker (start_marker s1) = Inr sb" "parse_marker (end_marker s1) = Inr eb"
    "log_file s1 \<noteq> Some ClosedFile"
    and e: "start_marker s1 = start_marker st" "end_marker s1 = end_marker st"
    by (simp_all add: same_setup_def)
  from Cons.IH[OF k] i e show ?case by (simp add: r)
qed

lemma ingest_end_only_conserves:
  assumes "buffer_enabled st" "start_marker st = []" "end_marker st \<noteq> []"
    "parse_marker (end_marker st) = Inr eb" "log_file st \<noteq> Some ClosedFile"
  shows "\<exists>st' frames. ingest st data ts = Some (Inr st')
     \<and> signals st' = signals st @ map (packet_signal (st\<lparr>last_timestamp := Some ts\<rparr>)) frames
     \<and> concat frames @ buffer st' = keep_newest max_buffer_size (buffer st @ data)"
proof -
  let ?w = "keep_newest max_buffer_size (buffer st @ data)"
  from emit_all_observed[OF assms(5), where ts=ts and rest="snd (spec_end_only_frames eb ?w)"
      and frames="fst (spec_end_only_frames eb ?w)"]
  obtain st' where st': "emit_all (st\<lparr>last_timestamp := Some ts,
        buffer := snd (spec_end_only_frames eb ?w)\<rparr>) (fst (spec_end_only_frames eb ?w)) = Inr st'"
    "buffer st' = snd (spec_end_only_frames eb ?w)"
    "signals st' = signals st @ map (packet_signal (st\<lparr>last_timestamp := Some ts\<rparr>))
        (fst (spec_end_only_frames eb ?w))"
    by blast
  from ingest_end_only[OF assms(1,3,2,4), of data ts] st'(1)
  have "ingest st data ts = Some (Inr st')" by simp
  moreover have "concat (fst (spec_end_only_frames eb ?w)) @ buffer st' = ?w"
    unfolding st'(2) by (rule spec_end_only_conserves)
  ultimately show ?thesis using st'(3) by blast
qed

lemma ingest_no_start_marker:
  assumes "buffer_enabled st" "end_marker st \<noteq> []"
    "parse_marker (start_marker st) = Inr sb" "sb \<noteq> []"
    "parse_marker (end_marker st) = Inr eb"
    "first_offset sb (keep_newest max_buffer_size (buffer st @ data)) 0 = None"
  shows "ingest st data ts = Some (Inr (st\<lparr>last_timestamp := Some ts, buffer := []\<rparr>))"
proof -
  from assms(4,6)
  have "spec_start_end_frames sb eb (keep_newest max_buffer_size (buffer st @ data)) = ([], [])"
    by (subst spec_start_end_frames.simps) simp
  with ingest_start_end[OF assms(1,2,3,4,5), of data ts] show ?thesis by simp
qed

text \<open>A frame in flight that fills the buffer to the cap, and one more byte.\<close>

lemma frame_in_flight_fills:
  assumes "length r + 1 = max_buffer_size" "0x02 \<notin> set r" "0x03 \<notin> set r"
  shows "ingest gilbarco_reader (0x02 # r) t1
     = Some (Inr (gilbarco_reader\<lparr>last_timestamp := Some t1, buffer := 0x02 # r\<rparr>))"
proof -
  have w: "keep_newest max_buffer_size (buffer gilbarco_reader @ 0x02 # r) = 0x02 # r"
    by (simp add: gilbarco_setup keep_newest_def assms(1)[symmetric])
  have a: "first_offset [0x02] (0x02 # r) 0 = Some 0" by (rule first_offset_here) simp
  have "0x03 \<notin> set (0x02 # r)" using assms(3) by simp
  then have b: "first_offset [0x03] (0x02 # r) (length [0x02 :: byte]) = None"
    by (rule first_offset_absent)
  have f: "spec_start_end_frames [0x02] [0x03] (0x02 # r) = ([], 0x02 # r)"
    by (subst spec_start_end_frames.simps) (simp only: a b Let_def drop_0 option.case list.simps if_False)
  have "ingest gilbarco_reader (0x02 # r) t1
    = Some (emit_all
      (gilbarco_reader\<lparr>last_timestamp := Some t1,
          buffer := snd (spec_start_end_frames [0x02] [0x03] (keep_newest max_buffer_size (buffer gilbarco_reader @ 0x02 # r)))\<rparr>)
      (fst (spec_start_end_frames [0x02] [0x03] (keep_newest max_buffer_size (buffer gilbarco_reader @ 0x02 # r)))))"
    by (rule ingest_start_end) (simp_all add: gilbarco_setup marker_bytes)
  then show ?thesis unfolding w f by simp
qed

lemma frame_in_flight_cut:
  assumes "length r + 1 = max_buffer_size" "0x02 \<notin> set r"
  shows "ingest (gilbarco_reader\<lparr>last_timestamp := Some t1, buffer := 0x02 # r\<rparr>) [0x41] t2
     = Some (Inr (gilbarco_reader\<lparr>last_timestamp := Some t2, buffer := []\<rparr>))"
    (is "ingest ?s _ _ = _")
proof -
  have w: "keep_newest max_buffer_size (buffer ?s @ [0x41]) = r @ [0x41]"
    by (simp add: keep_newest_def assms(1)[symmetric])
  have "0x02 \<notin> set (r @ [0x41 :: byte])" using assms(2) by simp
  then have "first_offset [0x02] (r @ [0x41]) 0 = None" by (rule first_offset_absent)
  then have n: "first_offset [0x02] (keep_newest max_buffer_size (buffer ?s @ [0x41])) 0 = None"
    by (simp only: w)
  have p: "buffer_enabled ?s" "end_marker ?s \<noteq> []"
    "parse_marker (start_marker ?s) = Inr [0x02]" "[0x02 :: byte] \<noteq> []"
    "parse_marker (end_marker ?s) = Inr [0x03]"
    by (simp_all add: gilbarco_setup marker_bytes)
  from ingest_no_start_marker[OF p n, of t2] show ?thesis by simp
qed

lemma frame_in_flight_lost:
  "ingest gilbarco_reader (0x02 # replicate (max_buffer_size - 1) 0x41) ''12:00:00.000''
     = Some (Inr (gilbarco_reader\<lparr>last_timestamp := Some ''12:00:00.000'',
          buffer := 0x02 # replicate (max_buffer_size - 1) 0x41\<rparr>))"
  "ingest_all gilbarco_reader
      [(0x02 # replicate (max_buffer_size - 1) 0x41, ''12:00:00.000''), ([0x41], ''12:00:00.050'')]
     = Some (Inr (gilbarco_reader\<lparr>last_timestamp := Some ''12:00:00.050'', buffer := []\<rparr>))"
proof -
  define r :: "byte list" where "r = replicate (max_buffer_size - 1) 0x41"
  have l: "length r + 1 = max_buffer_size" using cap_positive by (simp add: r_def)
  have s: "0x02 \<notin> set r" "0x03 \<notin> set r" by (simp_all add: r_def)
  from frame_in_flight_fills[OF l s]
  have 1: "ingest gilbarco_reader (0x02 # r) ''12:00:00.000''
     = Some (Inr (gilbarco_reader\<lparr>last_timestamp := Some ''12:00:00.000'', buffer := 0x02 # r\<rparr>))" .
  from frame_in_flight_cut[OF l s(1)]
  have 2: "ingest (gilbarco_reader\<lparr>last_timestamp := Some ''12:00:00.000'', buffer := 0x02 # r\<rparr>)
        [0x41] ''12:00:00.050''
     = Some (Inr (gilbarco_reader\<lparr>last_timestamp := Some ''12:00:00.050'', buffer := []\<rparr>))" .
  from 1 show "ingest gilbarco_reader (0x02 # replicate (max_buffer_size - 1) 0x41) ''12:00:00.000''
     = Some (Inr (gilbarco_reader\<lparr>last_timestamp := Some ''12:00:00.000'',
          buffer := 0x02 # replicate (max_buffer_size - 1) 0x41\<rparr>))"
    unfolding r_def .
  have "ingest_all gilbarco_reader [(0x02 # r, ''12:00:00.000''), ([0x41], ''12:00:00.050'')]
     = Some (Inr (gilbarco_reader\<lparr>last_timestamp := Some ''12:00:00.050'', buffer := []\<rparr>))"
    by (simp add: 1 2)
  then show "ingest_all gilbarco_reader
      [(0x02 # replicate (max_buffer_size - 1) 0x41, ''12:00:00.000''), ([0x41], ''12:00:00.050'')]
     = Some (Inr (gilbarco_reader\<lparr>last_timestamp := Some ''12:00:00.050'', buffer := []\<rparr>))"
    unfolding r_def .
qed

text \<open>
  C3 as amended. In a buffering mode (buffering on, an end marker configured) the buffer
  is within the cap of 1 MiB after every read, whatever was read before: every sequence
  of reads that returns leaves at most \<open>max_buffer_size\<close> bytes, and these are a suffix of
  the bytes held at the beginning followed by all chunks read, in order. The reads do
  return, and leave a state of the same kind, when both markers resolve and no closed
  log file is in the way. Each read frames the newest \<open>max_buffer_size\<close> bytes of the
  buffer and the chunk, so the cap drops the oldest bytes. In end-marker-only mode this
  is all that is lost: the packets of a read, one after the other, followed by the buffer
  it leaves are exactly these newest bytes, and when no end marker ever arrives the
  buffer is the newest \<open>max_buffer_size\<close> bytes of the whole stream. In start/end mode
  the framing rule discards the buffer when it holds no start marker: so it does when
  the cap has cut the start marker of the frame in flight, the newest bytes included.
\<close>

theorem buffer_cap_drops_oldest:
  "(\<forall>st reads st'.
      buffer_enabled st \<and> end_marker st \<noteq> [] \<and> reads \<noteq> []
      \<and> ingest_all st reads = Some (Inr st') \<longrightarrow>
      length (buffer st') \<le> max_buffer_size
      \<and> suffix (buffer st') (buffer st @ concat (map fst reads)))
   \<and> (\<forall>st reads start_byte end_byte.
      buffer_enabled st \<and> end_marker st \<noteq> []
      \<and> parse_marker (start_marker st) = Inr start_byte
      \<and> parse_marker (end_marker st) = Inr end_byte
      \<and> log_file st \<noteq> Some ClosedFile \<longrightarrow>
      (\<exists>st'. ingest_all st reads = Some (Inr st') \<and> buffer_enabled st'
         \<and> start_marker st' = start_marker st \<and> end_marker st' = end_marker st
         \<and> log_file st' \<noteq> Some ClosedFile))
   \<and> (\<forall>st data timestamp start_byte end_byte.
      buffer_enabled st \<and> end_marker st \<noteq> []
      \<and> parse_marker (start_marker st) = Inr start_byte
      \<and> parse_marker (end_marker st) = Inr end_byte \<longrightarrow>
      (let window = keep_newest max_buffer_size (buffer st @ data)
       in ingest st data timestamp =
            Some (emit_all
              (st\<lparr>last_timestamp := Some timestamp,
                  buffer := snd (spec_frames start_byte end_byte window)\<rparr>)
              (fst (spec_frames start_byte end_byte window)))))
   \<and> (\<forall>st data timestamp end_byte.
      buffer_enabled st \<and> start_marker st = [] \<and> end_marker st \<noteq> []
      \<and> parse_marker (end_marker st) = Inr end_byte
      \<and> log_file st \<noteq> Some ClosedFile \<longrightarrow>
      (\<exists>st' frames. ingest st data timestamp = Some (Inr st')
         \<and> signals st' = signals st @
              map (packet_signal (st\<lparr>last_timestamp := Some timestamp\<rparr>)) frames
         \<and> concat frames @ buffer st' = keep_newest max_buffer_size (buffer st @ data)))
   \<and> (\<forall>st reads end_byte.
      buffer_enabled st \<and> start_marker st = [] \<and> end_marker st \<noteq> []
      \<and> parse_marker (end_marker st) = Inr end_byte \<and> reads \<noteq> []
      \<and> first_offset end_byte (buffer st @ concat (map fst reads)) 0 = None \<longrightarrow>
      (\<exists>st'. ingest_all st reads = Some (Inr st')
         \<and> buffer st' = keep_newest max_buffer_size (buffer st @ concat (map fst reads))))
   \<and> (\<forall>st data timestamp start_byte end_byte.
      buffer_enabled st \<and> end_marker st \<noteq> []
      \<and> parse_marker (start_marker st) = Inr start_byte \<and> start_byte \<noteq> []
      \<and> parse_marker (end_marker st) = Inr end_byte
      \<and> first_offset start_byte (keep_newest max_buffer_size (buffer st @ data)) 0 = None \<longrightarrow>
      ingest st data timestamp = Some (Inr (st\<lparr>last_timestamp := Some timestamp, buffer := []\<rparr>)))"
proof (intro conjI allI impI)
  fix st :: reader and reads :: "(byte list \<times> string) list" and st'
  assume a: "buffer_enabled st \<and> end_marker st \<noteq> [] \<and> reads \<noteq> []
      \<and> ingest_all st reads = Some (Inr st')"
  with ingest_all_bounded[of st reads st']
  show "length (buffer st') \<le> max_buffer_size" by simp
  from a ingest_all_bounded[of st reads st']
  show "suffix (buffer st') (buffer st @ concat (map fst reads))" by simp
next
  fix st :: reader and reads :: "(byte list \<times> string) list" and start_byte end_byte
  assume "buffer_enabled st \<and> end_marker st \<noteq> []
      \<and> parse_marker (start_marker st) = Inr start_byte
      \<and> parse_marker (end_marker st) = Inr end_byte
      \<and> log_file st \<noteq> Some ClosedFile"
  then show "\<exists>st'. ingest_all st reads = Some (Inr st') \<and> buffer_enabled st'
         \<and> start_marker st' = start_marker st \<and> end_marker st' = end_marker st
         \<and> log_file st' \<noteq> Some ClosedFile"
    using ingest_all_keeps_setup[of st start_byte end_byte reads] by simp
next
  fix st :: reader and data timestamp start_byte end_byte
  assume "buffer_enabled st \<and> end_marker st \<noteq> []
      \<and> parse_marker (start_marker st) = Inr start_byte
      \<and> parse_marker (end_marker st) = Inr end_byte"
  then show "let window = keep_newest max_buffer_size (buffer st @ data)
       in ingest st data timestamp =
            Some (emit_all
              (st\<lparr>last_timestamp := Some timestamp,
                  buffer := snd (spec_frames start_byte end_byte window)\<rparr>)
              (fst (spec_frames start_byte end_byte window)))"
    unfolding Let_def by (simp add: ingest_buffering)
next
  fix st :: reader and data timestamp end_byte
  assume "buffer_enabled st \<and> start_marker st = [] \<and> end_marker st \<noteq> []
      \<and> parse_marker (end_marker st) = Inr end_byte
      \<and> log_file st \<noteq> Some ClosedFile"
  then show "\<exists>st' frames. ingest st data timestamp = Some (Inr st')
         \<and> signals st' = signals st @
              map (packet_signal (st\<lparr>last_timestamp := Some timestamp\<rparr>)) frames
         \<and> concat frames @ buffer st' = keep_newest max_buffer_size (buffer st @ data)"
    using ingest_end_only_conserves[of st end_byte data timestamp] by simp
next
  fix st :: reader and reads :: "(byte list \<times> string) list" and end_byte
  assume "buffer_enabled st \<and> start_marker st = [] \<and> end_marker st \<noteq> []
      \<and> parse_marker (end_marker st) = Inr end_byte \<and> reads \<noteq> []
      \<and> first_offset end_byte (buffer st @ concat (map fst reads)) 0 = None"
  then show "\<exists>st'. ingest_all st reads = Some (Inr st')
         \<and> buffer st' = keep_newest max_buffer_size (buffer st @ concat (map fst reads))"
    using ingest_all_sliding[of st end_byte reads] by simp
next
  fix st :: reader and data timestamp start_byte end_byte
  assume "buffer_enabled st \<and> end_marker st \<noteq> []
      \<and> parse_marker (start_marker st) = Inr start_byte \<and> start_byte \<noteq> []
      \<and> parse_marker (end_marker st) = Inr end_byte
      \<and> first_offset start_byte (keep_newest max_buffer_size (buffer st @ data)) 0 = None"
  then show "ingest st data timestamp
      = Some (Inr (st\<lparr>last_timestamp := Some timestamp, buffer := []\<rparr>))"
    using ingest_no_start_marker[of st start_byte end_byte data timestamp] by simp
qed

text \<open>
  The witness fills the buffer to the cap in end-marker-only mode and reads one byte
  more: the oldest byte goes, the newest stays. In start/end mode a single byte that is
  no start marker is discarded.
\<close>

theorem buffer_cap_drops_oldest_witness:
  "buffer_enabled end_marker_reader \<and> start_marker end_marker_reader = []
   \<and> end_marker end_marker_reader \<noteq> []
   \<and> parse_marker (start_marker end_marker_reader) = Inr []
   \<and> parse_marker (end_marker end_marker_reader) = Inr [0x03]
   \<and> log_file end_marker_reader \<noteq> Some ClosedFile
   \<and> first_offset [0x03] (replicate max_buffer_size 0x41 @ [0x42 :: byte]) 0 = None
   \<and> (\<exists>st'. ingest_all end_marker_reader
                [(replicate max_buffer_size 0x41, ''09:30:00.000''), ([0x42], ''09:30:00.050'')]
              = Some (Inr st')
         \<and> buffer st' = replicate (max_buffer_size - 1) 0x41 @ [0x42]
         \<and> length (buffer st') \<le> max_buffer_size)
   \<and> buffer_enabled gilbarco_reader \<and> end_marker gilbarco_reader \<noteq> []
   \<and> parse_marker (start_marker gilbarco_reader) = Inr [0x02]
   \<and> parse_marker (end_marker gilbarco_reader) = Inr [0x03]
   \<and> first_offset [0x02] (keep_newest max_buffer_size (buffer gilbarco_reader @ [0x41])) 0 = None
   \<and> ingest gilbarco_reader [0x41] ''09:30:00.000''
        = Some (Inr (gilbarco_reader\<lparr>last_timestamp := Some ''09:30:00.000'', buffer := []\<rparr>))"
proof -
  let ?r = "[(replicate max_buffer_size 0x41, ''09:30:00.000''), ([0x42], ''09:30:00.050'')]
      :: (byte list \<times> string) list"
  note bounded = buffer_cap_drops_oldest[THEN conjunct1, rule_format]
  note sliding = buffer_cap_drops_oldest[THEN conjunct2, THEN conjunct2, THEN conjunct2,
      THEN conjunct2, THEN conjunct1, rule_format]
  note no_start = buffer_cap_drops_oldest[THEN conjunct2, THEN conjunct2, THEN conjunct2,
      THEN conjunct2, THEN conjunct2, rule_format]
  have h: "buffer_enabled end_marker_reader \<and> start_marker end_marker_reader = []
      \<and> end_marker end_marker_reader \<noteq> []
      \<and> parse_marker (start_marker end_marker_reader) = Inr []
      \<and> parse_marker (end_marker end_marker_reader) = Inr [0x03]
      \<and> log_file end_marker_reader \<noteq> Some ClosedFile"
    by (simp add: end_marker_setup marker_bytes empty_marker)
  have n: "first_offset [0x03] (replicate max_buffer_size 0x41 @ [0x42 :: byte]) 0 = None"
    by (rule first_offset_absent) simp
  have s: "buffer end_marker_reader @ concat (map fst ?r) = replicate max_buffer_size 0x41 @ [0x42]"
    by (simp add: end_marker_setup)
  have ne: "?r \<noteq> []" by simp
  from n have n': "first_offset [0x03] (buffer end_marker_reader @ concat (map fst ?r)) 0 = None"
    by (simp only: s)
  have "\<exists>st'. ingest_all end_marker_reader ?r = Some (Inr st')
      \<and> buffer st' = keep_newest max_buffer_size (buffer end_marker_reader @ concat (map fst ?r))"
    by (rule sliding[where end_byte="[0x03]"]) (use h ne n' in blast)
  then obtain st' where st': "ingest_all end_marker_reader ?r = Some (Inr st')"
    "buffer st' = replicate (max_buffer_size - 1) 0x41 @ [0x42]"
    unfolding s keep_newest_full[OF cap_positive] by blast
  have "length (buffer st') \<le> max_buffer_size
      \<and> suffix (buffer st') (buffer end_marker_reader @ concat (map fst ?r))"
    by (rule bounded) (use h ne st'(1) in blast)
  with st' have one: "\<exists>st'. ingest_all end_marker_reader ?r = Some (Inr st')
         \<and> buffer st' = replicate (max_buffer_size - 1) 0x41 @ [0x42]
         \<and> length (buffer st') \<le> max_buffer_size" by blast
  have g: "buffer_enabled gilbarco_reader \<and> end_marker gilbarco_reader \<noteq> []
      \<and> parse_marker (start_marker gilbarco_reader) = Inr [0x02]
      \<and> parse_marker (end_marker gilbarco_reader) = Inr [0x03]"
    by (simp add: gilbarco_setup marker_bytes)
  have "first_offset [0x02] [0x41 :: byte] 0 = None" by (rule first_offset_absent) simp
  then have gn: "first_offset [0x02] (keep_newest max_buffer_size (buffer gilbarco_reader @ [0x41])) 0 = None"
    by (simp add: gilbarco_setup small_window)
  have two: "ingest gilbarco_reader [0x41] ''09:30:00.000''
        = Some (Inr (gilbarco_reader\<lparr>last_timestamp := Some ''09:30:00.000'', buffer := []\<rparr>))"
    by (rule no_start[where start_byte="[0x02]" and end_byte="[0x03]"]) (use g gn in blast)
  from h n one g gn two show ?thesis by blast
qed

text \<open>
  The claim as stated, in start/end mode: the first read leaves a frame in flight of
  exactly \<open>max_buffer_size\<close> bytes in the buffer, the start marker \<open>02\<close> and bytes \<open>41\<close>.
  With one more byte \<open>41\<close> the cap cuts the start marker off, the framing rule finds no
  start marker and empties the buffer: no packet has been published, and the bytes just
  read are not retained.
\<close>

theorem start_end_cap_discards_newest:
  "map_option (map_sum id buffer)
     (ingest gilbarco_reader (0x02 # replicate (max_buffer_size - 1) 0x41) ''12:00:00.000'')
     = Some (Inr (0x02 # replicate (max_buffer_size - 1) 0x41))
   \<and> events gilbarco_reader = []
   \<and> ingest_all gilbarco_reader
        [(0x02 # replicate (max_buffer_size - 1) 0x41, ''12:00:00.000''),
         ([0x41], ''12:00:00.050'')]
     = Some (Inr (gilbarco_reader\<lparr>last_timestamp := Some ''12:00:00.050'', buffer := []\<rparr>))"
  unfolding frame_in_flight_lost by (simp add: gilbarco_setup)

section \<open>Reading nothing\<close>

lemma ingest_settled:
  assumes "buffer_enabled st" "end_marker st \<noteq> []" "ingest st data t0 = Some (Inr st1)"
  shows "ingest st1 [] ts = Some (Inr (st1\<lparr>last_timestamp := Some ts\<rparr>))"
proof -
  from assms obtain sb eb where p: "parse_marker (start_marker st) = Inr sb"
      "parse_marker (end_marker st) = Inr eb"
    unfolding ingest_def Let_def by (auto split: sum.splits)
  let ?w = "keep_newest max_buffer_size (buffer st @ data)"
  from ingest_buffering[OF assms(1,2) p, of data t0] assms(3)
  have e: "emit_all (st\<lparr>last_timestamp := Some t0, buffer := snd (spec_frames sb eb ?w)\<rparr>)
      (fst (spec_frames sb eb ?w)) = Inr st1" by simp
  from emit_all_config[OF e] assms(1,2) p
  have b: "buffer st1 = snd (spec_frames sb eb ?w)"
    and c: "buffer_enabled st1" "end_marker st1 \<noteq> []"
      "parse_marker (start_marker st1) = Inr sb" "parse_marker (end_marker st1) = Inr eb"
    by simp_all
  from ingest_buffering_step[OF assms] have "length (buffer st1) \<le> max_buffer_size" by simp
  then have k: "keep_newest max_buffer_size (buffer st1 @ []) = buffer st1"
    by (simp add: keep_newest_id)
  have f: "spec_frames sb eb (buffer st1) = ([], buffer st1)"
    unfolding b by (rule spec_frames_settled)
  from ingest_buffering[OF c, of "[]" ts] show ?thesis
    unfolding k f by simp
qed

lemma ingest_empty_buffer:
  assumes "buffer_enabled st" "end_marker st \<noteq> []" "buffer st = []"
    "parse_marker (start_marker st) = Inr sb" "parse_marker (end_marker st) = Inr eb"
  shows "ingest st [] ts = Some (Inr (st\<lparr>last_timestamp := Some ts\<rparr>))"
proof -
  from parse_marker_nonempty[OF assms(5,2)] have "eb \<noteq> []" .
  then have f: "spec_frames sb eb [] = ([], [])" by (simp add: spec_frames_empty)
  have k: "keep_newest max_buffer_size (buffer st @ []) = []"
    by (simp add: assms(3) keep_newest_def)
  from ingest_buffering[OF assms(1,2,4,5), of "[]" ts] show ?thesis
    unfolding k f using assms(3) by simp
qed

lemma residual_example:
  "\<exists>st1. ingest end_marker_reader [0x10, 0x03, 0x20] ''09:30:00.000'' = Some (Inr st1)
     \<and> buffer st1 = [0x20]"
proof -
  have l: "log_file end_marker_reader \<noteq> Some ClosedFile" by (simp add: end_marker_setup)
  have w: "keep_newest max_buffer_size (buffer end_marker_reader @ [0x10, 0x03, 0x20])
      = [0x10, 0x03, 0x20]"
    by (simp add: end_marker_setup small_window)
  have f: "spec_end_only_frames [0x03] [0x10, 0x03, 0x20 :: byte] = ([[0x10, 0x03]], [0x20])"
    by code_simp
  have "ingest end_marker_reader [0x10, 0x03, 0x20] ''09:30:00.000''
    = Some (emit_all
      (end_marker_reader\<lparr>last_timestamp := Some ''09:30:00.000'',
          buffer := snd (spec_end_only_frames [0x03] (keep_newest max_buffer_size (buffer end_marker_reader @ [0x10, 0x03, 0x20])))\<rparr>)
      (fst (spec_end_only_frames [0x03] (keep_newest max_buffer_size (buffer end_marker_reader @ [0x10, 0x03, 0x20])))))"
    by (rule ingest_end_only) (simp_all add: end_marker_setup marker_bytes)
  then have "ingest end_marker_reader [0x10, 0x03, 0x20] ''09:30:00.000''
    = Some (emit_all (end_marker_reader\<lparr>last_timestamp := Some ''09:30:00.000'', buffer := [0x20]\<rparr>)
        [[0x10, 0x03]])"
    by (simp only: w f fst_conv snd_conv)
  with emit_all_observed[OF l, where ts="''09:30:00.000''" and rest="[0x20]" and frames="[[0x10, 0x03]]"]
  show ?thesis by auto
qed

lemma plain_reader_empty_chunk:
  "ingest plain_reader [] ''12:00:00.000''
     = Some (Inr (plain_reader\<lparr>last_timestamp := Some ''12:00:00.000'',
          events := [DataReceived ''RX1'' ''[12:00:00.000] RX1 \<newline>'']\<rparr>))"
  by (simp add: ingest_def plain_reader_def init_reader_def emit_packet_def log_message_def
      Let_def hex_data_def format_packet_display_def render_def timestamp_text_def)

text \<open>
  C10 as amended. In a buffering mode the body of the loop, given an empty chunk,
  publishes no packet and keeps the buffer whenever the state is one that an earlier read
  has left, or one with an empty buffer and markers that resolve: the state it returns
  differs in the clock reading alone.
\<close>

theorem empty_chunk_changes_nothing:
  "(\<forall>st data t0 st1 timestamp.
        buffer_enabled st \<and> end_marker st \<noteq> [] \<and> ingest st data t0 = Some (Inr st1) \<longrightarrow>
        ingest st1 [] timestamp = Some (Inr (st1\<lparr>last_timestamp := Some timestamp\<rparr>)))
   \<and> (\<forall>st timestamp start_byte end_byte.
        buffer_enabled st \<and> end_marker st \<noteq> [] \<and> buffer st = []
        \<and> parse_marker (start_marker st) = Inr start_byte
        \<and> parse_marker (end_marker st) = Inr end_byte \<longrightarrow>
        ingest st [] timestamp = Some (Inr (st\<lparr>last_timestamp := Some timestamp\<rparr>)))"
proof (intro conjI allI impI)
  fix st :: reader and data t0 st1 timestamp
  assume "buffer_enabled st \<and> end_marker st \<noteq> [] \<and> ingest st data t0 = Some (Inr st1)"
  then show "ingest st1 [] timestamp = Some (Inr (st1\<lparr>last_timestamp := Some timestamp\<rparr>))"
    using ingest_settled[of st data t0 st1 timestamp] by simp
next
  fix st :: reader and timestamp start_byte end_byte
  assume "buffer_enabled st \<and> end_marker st \<noteq> [] \<and> buffer st = []
        \<and> parse_marker (start_marker st) = Inr start_byte
        \<and> parse_marker (end_marker st) = Inr end_byte"
  then show "ingest st [] timestamp = Some (Inr (st\<lparr>last_timestamp := Some timestamp\<rparr>))"
    using ingest_empty_buffer[of st start_byte end_byte timestamp] by simp
qed

theorem empty_chunk_changes_nothing_witness:
  "buffer_enabled end_marker_reader \<and> end_marker end_marker_reader \<noteq> []
   \<and> (\<exists>st1. ingest end_marker_reader [0x10, 0x03, 0x20] ''09:30:00.000'' = Some (Inr st1)
          \<and> buffer st1 = [0x20]
          \<and> (\<exists>st2. ingest st1 [] ''09:30:00.050'' = Some (Inr st2)
                \<and> buffer st2 = [0x20] \<and> events st2 = events st1))
   \<and> buffer_enabled gilbarco_reader \<and> end_marker gilbarco_reader \<noteq> []
   \<and> buffer gilbarco_reader = []
   \<and> parse_marker (start_marker gilbarco_reader) = Inr [0x02]
   \<and> parse_marker (end_marker gilbarco_reader) = Inr [0x03]
   \<and> ingest gilbarco_reader [] ''09:30:00.000''
        = Some (Inr (gilbarco_reader\<lparr>last_timestamp := Some ''09:30:00.000''\<rparr>))"
proof -
  have h1: "buffer_enabled end_marker_reader \<and> end_marker end_marker_reader \<noteq> []"
    by (simp add: end_marker_setup)
  have h2: "buffer_enabled gilbarco_reader \<and> end_marker gilbarco_reader \<noteq> []
      \<and> buffer gilbarco_reader = []
      \<and> parse_marker (start_marker gilbarco_reader) = Inr [0x02]
      \<and> parse_marker (end_marker gilbarco_reader) = Inr [0x03]"
    by (simp add: gilbarco_setup marker_bytes)
  from residual_example obtain st1 where st1:
    "ingest end_marker_reader [0x10, 0x03, 0x20] ''09:30:00.000'' = Some (Inr st1)"
    "buffer st1 = [0x20]" by blast
  from empty_chunk_changes_nothing h1 st1(1)
  have "ingest st1 [] ''09:30:00.050'' = Some (Inr (st1\<lparr>last_timestamp := Some ''09:30:00.050''\<rparr>))"
    by blast
  with st1 have a: "\<exists>st1. ingest end_marker_reader [0x10, 0x03, 0x20] ''09:30:00.000'' = Some (Inr st1)
          \<and> buffer st1 = [0x20]
          \<and> (\<exists>st2. ingest st1 [] ''09:30:00.050'' = Some (Inr st2)
                \<and> buffer st2 = [0x20] \<and> events st2 = events st1)"
    by auto
  from empty_chunk_changes_nothing h2
  have b: "ingest gilbarco_reader [] ''09:30:00.000''
        = Some (Inr (gilbarco_reader\<lparr>last_timestamp := Some ''09:30:00.000''\<rparr>))"
    by blast
  from h1 a h2 b show ?thesis by blast
qed

lemma stray_byte_buffer_cleared:
  "ingest (gilbarco_reader\<lparr>buffer := [0x99]\<rparr>) [] ''12:00:00.000''
     = Some (Inr (gilbarco_reader\<lparr>buffer := [], last_timestamp := Some ''12:00:00.000''\<rparr>))"
    (is "ingest ?s _ _ = _")
proof -
  have p: "buffer_enabled ?s" "end_marker ?s \<noteq> []"
    "parse_marker (start_marker ?s) = Inr [0x02]" "[0x02 :: byte] \<noteq> []"
    "parse_marker (end_marker ?s) = Inr [0x03]"
    by (simp_all add: gilbarco_setup marker_bytes)
  have "first_offset [0x02] [0x99 :: byte] 0 = None" by (rule first_offset_absent) simp
  then have n: "first_offset [0x02] (keep_newest max_buffer_size (buffer ?s @ [])) 0 = None"
    by (simp add: small_window)
  from ingest_no_start_marker[OF p n, of "''12:00:00.000''"] show ?thesis by simp
qed

text \<open>
  The claim as stated, for every state. With buffering off the body publishes the chunk
  whatever its length: the empty chunk gives one packet without bytes. And in start/end
  mode a buffer that holds the stray byte \<open>99\<close>, which no read leaves behind, is emptied.
\<close>

theorem empty_chunk_not_idle:
  "events plain_reader = []
   \<and> map_option (map_sum id events) (ingest plain_reader [] ''12:00:00.000'')
       = Some (Inr [DataReceived ''RX1'' ''[12:00:00.000] RX1 \<newline>''])
   \<and> buffer (gilbarco_reader\<lparr>buffer := [0x99]\<rparr>) = [0x99]
   \<and> map_option (map_sum id buffer)
         (ingest (gilbarco_reader\<lparr>buffer := [0x99]\<rparr>) [] ''12:00:00.000'')
       = Some (Inr [])"
  unfolding plain_reader_empty_chunk stray_byte_buffer_cleared
  by (simp add: plain_reader_def init_reader_def)

section \<open>Shutdown\<close>

lemma stop_open_log:
  assumes "buffer_enabled st" "buffer st \<noteq> []" "log_file st = Some OpenFile"
  shows "stop st = Inr (st\<lparr>is_running := False, log_file := Some ClosedFile,
            events := events st @ [packet_signal st (buffer st), packet_log_line st (buffer st),
                                   LogClosed]\<rparr>)"
  using assms
  by (simp add: stop_def Let_def packet_signal_def packet_log_line_def packet_text_def)

lemma stop_no_log:
  assumes "buffer_enabled st" "buffer st \<noteq> []" "log_file st = None"
  shows "stop st = Inr (st\<lparr>is_running := False,
            events := events st @ [packet_signal st (buffer st)]\<rparr>)"
  using assms
  by (simp add: stop_def Let_def packet_signal_def packet_text_def)

lemma stop_closed_log:
  assumes "buffer_enabled st" "buffer st \<noteq> []" "log_file st = Some ClosedFile"
  shows "stop st = Inl ValueError"
  using assms by (simp add: stop_def Let_def)

lemma logging_setup:
  "buffer_enabled logging_reader" "end_marker logging_reader = ''0x03''"
  "start_marker logging_reader = ''0x02''" "buffer logging_reader = []"
  "log_file logging_reader = None" "source_label logging_reader = ''RX1''"
  "events logging_reader = []" "log_dir logging_reader = Some ''logs''"
  "port logging_reader = ''COM1''" "baudrate logging_reader = 9600"
  "bytesize logging_reader = 8" "last_timestamp logging_reader = None"
  "log_file_size logging_reader = 0"
  by (simp_all add: logging_reader_def init_reader_def)

lemma logging_reader_opened:
  "open_new_log_file logging_reader
     = Inr (logging_reader\<lparr>log_file := Some OpenFile,
              events := [LogOpened, LogWrote (Header ''RX1'' ''COM1'' 9600 8)]\<rparr>)"
  by (simp add: open_new_log_file_def Let_def logging_setup)

lemma logging_reader_residue:
  "ingest (logging_reader\<lparr>log_file := Some OpenFile,
              events := [LogOpened, LogWrote (Header ''RX1'' ''COM1'' 9600 8)]\<rparr>)
      [0x02, 0x41] ''12:00:00.000''
     = Some (Inr (logging_reader\<lparr>log_file := Some OpenFile,
              events := [LogOpened, LogWrote (Header ''RX1'' ''COM1'' 9600 8)],
              last_timestamp := Some ''12:00:00.000'', buffer := [0x02, 0x41]\<rparr>))"
    (is "ingest ?s _ _ = _")
proof -
  have p: "buffer_enabled ?s" "end_marker ?s \<noteq> []"
    "parse_marker (start_marker ?s) = Inr [0x02]" "[0x02 :: byte] \<noteq> []"
    "parse_marker (end_marker ?s) = Inr [0x03]"
    by (simp_all add: logging_setup marker_bytes)
  have w: "keep_newest max_buffer_size (buffer ?s @ [0x02, 0x41]) = [0x02, 0x41]"
    by (simp add: logging_setup small_window)
  have f: "spec_start_end_frames [0x02] [0x03] [0x02, 0x41 :: byte] = ([], [0x02, 0x41])"
    by code_simp
  from ingest_start_end[OF p, of "[0x02, 0x41]" "''12:00:00.000''"] show ?thesis
    unfolding w f by simp
qed

text \<open>
  C6. With buffering on and bytes left in the buffer, \<open>stop\<close> publishes them as one last
  packet, and writes its line to the log file when there is one. It then closes an open
  log file as it is, without the footer line that every other way of closing writes; and
  as the closed file object stays in \<open>log_file\<close>, the \<open>finally\<close> block of \<open>run\<close>, which
  comes after, fails on its own footer write. Should the \<open>finally\<close> block come first, the
  footer is written, and \<open>stop\<close> then fails on writing the residue to the closed file.
\<close>

theorem stop_flushes_residue_without_footer:
  "(\<forall>st. buffer_enabled st \<and> buffer st \<noteq> [] \<and> log_file st \<noteq> Some ClosedFile \<longrightarrow>
      (\<exists>st'. stop st = Inr st'
         \<and> signals st' = signals st @ [packet_signal st (buffer st)]
         \<and> log_lines st' = log_lines st @
              (if log_file st = None then [] else [packet_log_line st (buffer st)])))
   \<and> (\<forall>st. buffer_enabled st \<and> buffer st \<noteq> [] \<and> log_file st = Some OpenFile \<longrightarrow>
      (\<exists>st'. stop st = Inr st'
         \<and> events st' = events st @
              [packet_signal st (buffer st), packet_log_line st (buffer st), LogClosed]
         \<and> log_file st' = Some ClosedFile
         \<and> run_finally st' = Inl ValueError))
   \<and> (\<forall>st. buffer_enabled st \<and> buffer st \<noteq> [] \<and> log_file st = Some OpenFile \<longrightarrow>
      (\<exists>st'. run_finally st = Inr st'
         \<and> events st' = events st @ [LogWrote Footer, LogClosed]
         \<and> stop st' = Inl ValueError))"
proof (intro conjI allI impI)
  fix st :: reader
  assume a: "buffer_enabled st \<and> buffer st \<noteq> [] \<and> log_file st \<noteq> Some ClosedFile"
  show "\<exists>st'. stop st = Inr st'
         \<and> signals st' = signals st @ [packet_signal st (buffer st)]
         \<and> log_lines st' = log_lines st @
              (if log_file st = None then [] else [packet_log_line st (buffer st)])"
  proof (cases "log_file st")
    case None
    with a stop_no_log[of st] show ?thesis
      by (simp add: signals_def log_lines_def packet_signal_def)
  next
    case (Some h)
    with a have h: "log_file st = Some OpenFile" by (cases h) auto
    with a stop_open_log[of st] show ?thesis
      by (simp add: signals_def log_lines_def packet_signal_def packet_log_line_def)
  qed
next
  fix st :: reader
  assume a: "buffer_enabled st \<and> buffer st \<noteq> [] \<and> log_file st = Some OpenFile"
  with stop_open_log[of st] show "\<exists>st'. stop st = Inr st'
         \<and> events st' = events st @
              [packet_signal st (buffer st), packet_log_line st (buffer st), LogClosed]
         \<and> log_file st' = Some ClosedFile
         \<and> run_finally st' = Inl ValueError"
    by (simp add: run_finally_def)
next
  fix st :: reader
  assume a: "buffer_enabled st \<and> buffer st \<noteq> [] \<and> log_file st = Some OpenFile"
  then have "run_finally st = Inr (st\<lparr>log_file := Some ClosedFile,
                 events := events st @ [LogWrote Footer, LogClosed]\<rparr>)"
    by (simp add: run_finally_def)
  moreover have "stop (st\<lparr>log_file := Some ClosedFile,
                 events := events st @ [LogWrote Footer, LogClosed]\<rparr>) = Inl ValueError"
    using a by (intro stop_closed_log) simp_all
  ultimately show "\<exists>st'. run_finally st = Inr st'
         \<and> events st' = events st @ [LogWrote Footer, LogClosed]
         \<and> stop st' = Inl ValueError"
    by simp
qed

text \<open>
  The reader opens its log file, reads \<open>02 41\<close> in start/end mode, and is stopped: the
  log file ends with the line of the residue, and no footer.
\<close>

theorem stop_flushes_residue_without_footer_witness:
  "(\<exists>st1 st2 st3. open_new_log_file logging_reader = Inr st1
       \<and> ingest st1 [0x02, 0x41] ''12:00:00.000'' = Some (Inr st2)
       \<and> buffer_enabled st2 \<and> buffer st2 = [0x02, 0x41] \<and> log_file st2 = Some OpenFile
       \<and> stop st2 = Inr st3
       \<and> events st3 = [LogOpened, LogWrote (Header ''RX1'' ''COM1'' 9600 8),
                        DataReceived ''RX1'' ''[12:00:00.000] RX1 02 41\<newline>'',
                        LogWrote (Message ''[12:00:00.000] RX1 02 41\<newline>''), LogClosed]
       \<and> log_file st3 = Some ClosedFile
       \<and> run_finally st3 = Inl ValueError)"
proof -
  let ?s1 = "logging_reader\<lparr>log_file := Some OpenFile,
              events := [LogOpened, LogWrote (Header ''RX1'' ''COM1'' 9600 8)]\<rparr>"
  let ?s2 = "logging_reader\<lparr>log_file := Some OpenFile,
              events := [LogOpened, LogWrote (Header ''RX1'' ''COM1'' 9600 8)],
              last_timestamp := Some ''12:00:00.000'', buffer := [0x02, 0x41]\<rparr>"
  note second = stop_flushes_residue_without_footer[THEN conjunct2, THEN conjunct1, rule_format]
  have h: "buffer_enabled ?s2 \<and> buffer ?s2 \<noteq> [] \<and> log_file ?s2 = Some OpenFile"
    by (simp add: logging_setup)
  have sig: "packet_signal ?s2 (buffer ?s2) = DataReceived ''RX1'' ''[12:00:00.000] RX1 02 41\<newline>''"
    "packet_log_line ?s2 (buffer ?s2) = LogWrote (Message ''[12:00:00.000] RX1 02 41\<newline>'')"
    by code_simp+
  from second[OF h] obtain st3 where st3: "stop ?s2 = Inr st3"
    "events st3 = events ?s2 @
        [packet_signal ?s2 (buffer ?s2), packet_log_line ?s2 (buffer ?s2), LogClosed]"
    "log_file st3 = Some ClosedFile" "run_finally st3 = Inl ValueError"
    by blast
  from st3(2) have e: "events st3 = [LogOpened, LogWrote (Header ''RX1'' ''COM1'' 9600 8),
                        DataReceived ''RX1'' ''[12:00:00.000] RX1 02 41\<newline>'',
                        LogWrote (Message ''[12:00:00.000] RX1 02 41\<newline>''), LogClosed]"
    unfolding sig by simp
  have b: "buffer_enabled ?s2 \<and> buffer ?s2 = [0x02, 0x41] \<and> log_file ?s2 = Some OpenFile"
    by (simp add: logging_setup)
  from logging_reader_opened logging_reader_residue b st3(1) e st3(3,4) show ?thesis by blast
qed

section \<open>Rotation of the log file\<close>

lemma file_bytes_append: "file_bytes n (xs @ ys) = file_bytes (file_bytes n xs) ys"
  by (induction n xs rule: file_bytes.induct) simp_all

lemma current_file_bytes_written:
  "current_file_bytes (es @ [LogWrote (Message m)]) = current_file_bytes es + length (encode_utf8 m)"
  by (simp add: current_file_bytes_def file_bytes_append)

lemma current_file_bytes_rotated:
  "current_file_bytes (es @ [LogWrote Footer, LogClosed, LogOpened, LogWrote (Header a b c d)]) = 0"
  by (simp add: current_file_bytes_def file_bytes_append)

lemma current_file_bytes_opened:
  "current_file_bytes (es @ [LogOpened, LogWrote (Header a b c d)]) = 0"
  by (simp add: current_file_bytes_def file_bytes_append)

lemma open_new_log_file_sink:
  assumes "log_dir st \<noteq> None" "log_dir st \<noteq> Some []" "log_file st \<noteq> Some ClosedFile"
  shows "\<exists>st'. open_new_log_file st = Inr st' \<and> log_sink st'
     \<and> current_file_bytes (events st') = 0"
proof (cases "log_file st")
  case None
  with assms show ?thesis
    by (simp add: open_new_log_file_def Let_def log_sink_def current_file_bytes_opened)
next
  case (Some h)
  with assms have h: "log_file st = Some OpenFile" by (cases h) auto
  have "current_file_bytes ((events st @ [LogWrote Footer, LogClosed]) @
      [LogOpened, LogWrote (Header (source_label st) (port st) (baudrate st) (bytesize st))]) = 0"
    by (rule current_file_bytes_opened)
  with assms h show ?thesis
    by (simp add: open_new_log_file_def Let_def log_sink_def)
qed

lemma log_message_sink:
  assumes "log_sink st"
  shows "\<exists>st'. log_message st m = Inr st' \<and> log_sink st'
     \<and> rotation_events st' = rotation_events st
     \<and> events st' = events st @ LogWrote (Message m) #
          (if max_log_size \<le> current_file_bytes (events st) + length (encode_utf8 m)
           then rotation_events st else [])"
proof (cases "max_log_size \<le> current_file_bytes (events st) + length (encode_utf8 m)")
  case True
  have "current_file_bytes ((events st @ [LogWrote (Message m)]) @
      [LogWrote Footer, LogClosed, LogOpened,
       LogWrote (Header (source_label st) (port st) (baudrate st) (bytesize st))]) = 0"
    by (rule current_file_bytes_rotated)
  with assms True show ?thesis
    by (simp add: log_sink_def log_message_def rotate_log_file_def open_new_log_file_def Let_def
        rotation_events_def)
next
  case False
  with assms show ?thesis
    by (simp add: log_sink_def log_message_def Let_def rotation_events_def
        current_file_bytes_written)
qed

lemma write_all_spec:
  assumes "log_sink st"
  shows "\<exists>st'. write_all st ms = Inr st' \<and> log_sink st'
     \<and> events st' = events st @
          spec_sink_events (rotation_events st) (current_file_bytes (events st)) ms"
  using assms
proof (induction ms arbitrary: st)
  case Nil
  then show ?case by simp
next
  case (Cons m ms)
  from log_message_sink[OF Cons.prems, of m] obtain s1 where s1:
    "log_message st m = Inr s1" "log_sink s1" "rotation_events s1 = rotation_events st"
    "events s1 = events st @ LogWrote (Message m) #
          (if max_log_size \<le> current_file_bytes (events st) + length (encode_utf8 m)
           then rotation_events st else [])"
    by blast
  from Cons.IH[OF s1(2)] obtain s2 where s2: "write_all s1 ms = Inr s2" "log_sink s2"
    "events s2 = events s1 @
        spec_sink_events (rotation_events s1) (current_file_bytes (events s1)) ms"
    by blast
  have c: "current_file_bytes (events s1) =
      (if max_log_size \<le> current_file_bytes (events st) + length (encode_utf8 m) then 0
       else current_file_bytes (events st) + length (encode_utf8 m))"
  proof (cases "max_log_size \<le> current_file_bytes (events st) + length (encode_utf8 m)")
    case True
    have "current_file_bytes ((events st @ [LogWrote (Message m)]) @
        [LogWrote Footer, LogClosed, LogOpened,
         LogWrote (Header (source_label st) (port st) (baudrate st) (bytesize st))]) = 0"
      by (rule current_file_bytes_rotated)
    with True show ?thesis unfolding s1(4) by (simp add: rotation_events_def)
  next
    case False
    with current_file_bytes_written[of "events st" m] show ?thesis unfolding s1(4) by simp
  qed
  show ?case
  proof (cases "max_log_size \<le> current_file_bytes (events st) + length (encode_utf8 m)")
    case True
    with c have c0: "current_file_bytes (events s1) = 0" by simp
    from True s1(4) have e1: "events s1 = events st @ LogWrote (Message m) # rotation_events st"
      by simp
    have "events s2 = events s1 @ spec_sink_events (rotation_events st) 0 ms"
      unfolding s2(3) s1(3) c0 ..
    then have "events s2 = events st @
        spec_sink_events (rotation_events st) (current_file_bytes (events st)) (m # ms)"
      unfolding e1 using True by (simp add: Let_def)
    with s1(1) s2(1,2) show ?thesis by simp
  next
    case False
    with c have c1: "current_file_bytes (events s1)
        = current_file_bytes (events st) + length (encode_utf8 m)" by simp
    from False s1(4) have e1: "events s1 = events st @ [LogWrote (Message m)]" by simp
    have "events s2 = events s1 @ spec_sink_events (rotation_events st)
        (current_file_bytes (events st) + length (encode_utf8 m)) ms"
      unfolding s2(3) s1(3) c1 ..
    then have "events s2 = events st @
        spec_sink_events (rotation_events st) (current_file_bytes (events st)) (m # ms)"
      unfolding e1 using False by (simp add: Let_def)
    with s1(1) s2(1,2) show ?thesis by simp
  qed
qed

lemma emit_packet_writes:
  "emit_packet st p = log_message (st\<lparr>events := events st @ [packet_signal st p]\<rparr>) (packet_text st p)"
  by (simp add: emit_packet_def Let_def packet_signal_def packet_text_def format_packet_display_def)

text \<open>
  C7. A reader that opens its log file has a log sink at work, with no byte counted.
  Every packet line written to such a sink leaves it at work, and is followed by a
  rotation exactly when the bytes of the packet lines in the current file, the line just
  written included, have reached the limit of 20 MiB: the check comes after the write. A
  rotation is the footer of the file that is closed, then the new file and its header,
  and the count begins again. So a sequence of writes gives the log that the rule of the
  specification gives, one rotation for each time the limit is reached. Publishing a
  packet is the signal and one such write.
\<close>

theorem log_rotates_at_limit:
  "(\<forall>st. log_dir st \<noteq> None \<and> log_dir st \<noteq> Some [] \<and> log_file st \<noteq> Some ClosedFile \<longrightarrow>
      (\<exists>st'. open_new_log_file st = Inr st' \<and> log_sink st'
         \<and> current_file_bytes (events st') = 0))
   \<and> (\<forall>st message. log_sink st \<longrightarrow>
      (\<exists>st'. log_message st message = Inr st' \<and> log_sink st'
         \<and> events st' = events st @ LogWrote (Message message) #
              (if max_log_size \<le> current_file_bytes (events st) + length (encode_utf8 message)
               then rotation_events st else [])))
   \<and> (\<forall>st messages. log_sink st \<longrightarrow>
      (\<exists>st'. write_all st messages = Inr st' \<and> log_sink st'
         \<and> events st' = events st @
              spec_sink_events (rotation_events st) (current_file_bytes (events st)) messages))
   \<and> (\<forall>st packet. emit_packet st packet =
         log_message (st\<lparr>events := events st @ [packet_signal st packet]\<rparr>)
           (packet_text st packet))"
proof (intro conjI allI impI)
  fix st :: reader
  assume "log_dir st \<noteq> None \<and> log_dir st \<noteq> Some [] \<and> log_file st \<noteq> Some ClosedFile"
  then show "\<exists>st'. open_new_log_file st = Inr st' \<and> log_sink st'
         \<and> current_file_bytes (events st') = 0"
    using open_new_log_file_sink[of st] by simp
next
  fix st :: reader and message
  assume "log_sink st"
  from log_message_sink[OF this, of message]
  show "\<exists>st'. log_message st message = Inr st' \<and> log_sink st'
         \<and> events st' = events st @ LogWrote (Message message) #
              (if max_log_size \<le> current_file_bytes (events st) + length (encode_utf8 message)
               then rotation_events st else [])"
    by blast
next
  fix st :: reader and messages
  assume "log_sink st"
  from write_all_spec[OF this, of messages]
  show "\<exists>st'. write_all st messages = Inr st' \<and> log_sink st'
         \<and> events st' = events st @
              spec_sink_events (rotation_events st) (current_file_bytes (events st)) messages" .
next
  fix st :: reader and packet
  show "emit_packet st packet =
         log_message (st\<lparr>events := events st @ [packet_signal st packet]\<rparr>)
           (packet_text st packet)"
    by (rule emit_packet_writes)
qed

lemma log_limit_large: "1 < max_log_size"
  by (simp add: max_log_size_def)

lemma encode_letters: "length (encode_utf8 (replicate n (CHR ''A''))) = n"
  by (induction n) (simp_all add: encode_utf8_def utf8_char_def)

lemma letters_short: "length (encode_utf8 ''x'') = 1" "length (encode_utf8 ''y'') = 1"
  by (simp_all add: encode_utf8_def utf8_char_def)

text \<open>
  The witness: a new log file, a line one byte short of the limit, then the lines \<open>x\<close>
  and \<open>y\<close>. The line \<open>x\<close> reaches the limit and is followed by the one rotation; the
  line \<open>y\<close> is the first of the new file.
\<close>

theorem log_rotates_at_limit_witness:
  "log_dir logging_reader \<noteq> None \<and> log_dir logging_reader \<noteq> Some []
   \<and> log_file logging_reader \<noteq> Some ClosedFile
   \<and> (\<exists>st1 st2. open_new_log_file logging_reader = Inr st1 \<and> log_sink st1
         \<and> write_all st1 [replicate (max_log_size - 1) (CHR ''A''), ''x'', ''y''] = Inr st2
         \<and> events st2 =
              [LogOpened, LogWrote (Header ''RX1'' ''COM1'' 9600 8),
               LogWrote (Message (replicate (max_log_size - 1) (CHR ''A''))),
               LogWrote (Message ''x''),
               LogWrote Footer, LogClosed, LogOpened, LogWrote (Header ''RX1'' ''COM1'' 9600 8),
               LogWrote (Message ''y'')])"
proof -
  note opened = log_rotates_at_limit[THEN conjunct1, rule_format]
  note writes = log_rotates_at_limit[THEN conjunct2, THEN conjunct2, THEN conjunct1, rule_format]
  let ?s1 = "logging_reader\<lparr>log_file := Some OpenFile,
              events := [LogOpened, LogWrote (Header ''RX1'' ''COM1'' 9600 8)]\<rparr>"
  have h: "log_dir logging_reader \<noteq> None \<and> log_dir logging_reader \<noteq> Some []
      \<and> log_file logging_reader \<noteq> Some ClosedFile"
    by (simp add: logging_setup)
  from opened[OF h] logging_reader_opened
  have s1: "open_new_log_file logging_reader = Inr ?s1" "log_sink ?s1"
    "current_file_bytes (events ?s1) = 0" by auto
  have r: "rotation_events ?s1
      = [LogWrote Footer, LogClosed, LogOpened, LogWrote (Header ''RX1'' ''COM1'' 9600 8)]"
    by (simp add: rotation_events_def logging_setup)
  have sp: "spec_sink_events rot 0 [replicate (max_log_size - 1) (CHR ''A''), ''x'', ''y'']
      = LogWrote (Message (replicate (max_log_size - 1) (CHR ''A''))) # LogWrote (Message ''x'')
        # rot @ [LogWrote (Message ''y'')]" for rot
  proof -
    have a: "\<not> max_log_size \<le> max_log_size - 1" "max_log_size \<le> max_log_size - 1 + 1"
      "\<not> max_log_size \<le> 1"
      using log_limit_large by arith+
    show ?thesis
      using a by (simp add: Let_def encode_letters letters_short)
  qed
  from writes[OF s1(2), of "[replicate (max_log_size - 1) (CHR ''A''), ''x'', ''y'']"]
  obtain st2 where st2: "write_all ?s1 [replicate (max_log_size - 1) (CHR ''A''), ''x'', ''y''] = Inr st2"
    "events st2 = events ?s1 @ spec_sink_events (rotation_events ?s1) (current_file_bytes (events ?s1))
        [replicate (max_log_size - 1) (CHR ''A''), ''x'', ''y'']"
    by blast
  from st2(2) have e: "events st2 =
              [LogOpened, LogWrote (Header ''RX1'' ''COM1'' 9600 8),
               LogWrote (Message (replicate (max_log_size - 1) (CHR ''A''))),
               LogWrote (Message ''x''),
               LogWrote Footer, LogClosed, LogOpened, LogWrote (Header ''RX1'' ''COM1'' 9600 8),
               LogWrote (Message ''y'')]"
    unfolding s1(3) r sp by simp
  from h s1(1,2) st2(1) e show ?thesis by blast
qed

section \<open>The display queue\<close>

lemma popleft_while_keeps_newest: "popleft_while m q = keep_newest m q"
proof (induction m q rule: popleft_while.induct)
  case (1 m q)
  show ?case
  proof (cases "m < length q")
    case True
    then obtain x r where q: "q = x # r" by (cases q) auto
    from True have "length q - m = Suc (length r - m)" by (simp add: q Suc_diff_le)
    then have "keep_newest m q = keep_newest m r" by (simp add: keep_newest_def q)
    with "1.IH"[OF True] True show ?thesis
      by (subst popleft_while.simps) (simp add: q)
  next
    case False
    then show ?thesis by (subst popleft_while.simps) (simp add: keep_newest_def)
  qed
qed

lemma flush_pending_effect:
  assumes "shared_log_file s \<noteq> Some ClosedFile"
  shows "\<exists>s'. flush_pending s = Inr s' \<and> pending_display s' = []
     \<and> displayed s' = displayed s @
          (if pending_display s = [] then [] else [concat (pending_display s)])
     \<and> shared_log_file s' \<noteq> Some ClosedFile"
proof (cases "shared_log_file s")
  case None
  then show ?thesis
    by (simp add: flush_pending_def Let_def displayed_def)
next
  case (Some h)
  with assms have h: "shared_log_file s = Some OpenFile" by (cases h) auto
  show ?thesis
    by (simp add: h flush_pending_def sniffer_open_new_log_file_def Let_def displayed_def)
qed

lemma on_data_received_effect:
  assumes "shared_log_file s \<noteq> Some ClosedFile"
  shows "\<exists>s'. on_data_received s label data = Inr s'
     \<and> shared_log_file s' \<noteq> Some ClosedFile
     \<and> (if 1000 \<le> length (keep_newest max_pending_display (pending_display s @ [data]))
         then pending_display s' = []
            \<and> displayed s' = displayed s @
                 [concat (keep_newest max_pending_display (pending_display s @ [data]))]
         else pending_display s' = keep_newest max_pending_display (pending_display s @ [data])
            \<and> displayed s' = displayed s)"
proof -
  let ?k = "keep_newest max_pending_display (pending_display s @ [data])"
  define s3 where "s3 =
     (let s1 = s\<lparr>pending_display := pending_display s @ [data]\<rparr>;
          s2 = (if max_pending_display < length (pending_display s1)
                then s1\<lparr>pending_display := popleft_while max_pending_display (pending_display s1)\<rparr>
                else s1)
      in (if shared_log_file s2 \<noteq> None then
                  (let s' = s2\<lparr>pending_log := pending_log s2 @ [data],
                               pending_log_bytes :=
                                 pending_log_bytes s2 + int (length (encode_utf8 data))\<rparr>
                   in if max_pending_log_bytes < pending_log_bytes s'
                      then s'\<lparr>pending_log := [], pending_log_bytes := 0\<rparr> else s')
                else s2))"
  have call: "on_data_received s label data
      = (if 1000 \<le> length (pending_display s3) then flush_pending s3 else Inr s3)"
    by (simp add: on_data_received_def s3_def Let_def)
  have q: "pending_display s3 = ?k"
    by (simp add: s3_def Let_def popleft_while_keeps_newest keep_newest_def)
  have o: "displayed s3 = displayed s" "shared_log_file s3 = shared_log_file s"
    by (simp_all add: s3_def Let_def displayed_def)
  show ?thesis
  proof (cases "1000 \<le> length ?k")
    case True
    then have ne: "pending_display s3 \<noteq> []" unfolding q by auto
    from assms o have "shared_log_file s3 \<noteq> Some ClosedFile" by simp
    from flush_pending_effect[OF this] ne obtain s' where
      "flush_pending s3 = Inr s'" "pending_display s' = []"
      "displayed s' = displayed s3 @ [concat (pending_display s3)]"
      "shared_log_file s' \<noteq> Some ClosedFile" by auto
    with True show ?thesis unfolding call q o by simp
  next
    case False
    with assms show ?thesis unfolding call q by (simp add: q o)
  qed
qed

lemma queue_limits: "0 < max_pending_display" "1000 \<le> max_pending_display"
  by (simp_all add: max_pending_display_def)

lemma kept_newest:
  assumes "0 < n"
  shows "keep_newest n (q @ [d]) \<noteq> [] \<and> last (keep_newest n (q @ [d])) = d
     \<and> length (keep_newest n (q @ [d])) \<le> n"
  using assms by (simp add: keep_newest_def)

lemma on_data_received_bounded:
  assumes "shared_log_file s \<noteq> Some ClosedFile"
  shows "\<exists>s'. on_data_received s label data = Inr s'
     \<and> shared_log_file s' \<noteq> Some ClosedFile
     \<and> length (pending_display s') \<le> max_pending_display
     \<and> length (pending_display s') < 1000"
proof -
  from on_data_received_effect[OF assms, of label data] obtain s' where s':
    "on_data_received s label data = Inr s'" "shared_log_file s' \<noteq> Some ClosedFile"
    "if 1000 \<le> length (keep_newest max_pending_display (pending_display s @ [data]))
         then pending_display s' = []
            \<and> displayed s' = displayed s @
                 [concat (keep_newest max_pending_display (pending_display s @ [data]))]
         else pending_display s' = keep_newest max_pending_display (pending_display s @ [data])
            \<and> displayed s' = displayed s"
    by blast
  from s'(3) have "length (pending_display s') < 1000" by (auto split: if_splits)
  with queue_limits(2) s'(1,2) show ?thesis by auto
qed

lemma on_data_received_keeps_all:
  assumes "shared_log_file s \<noteq> Some ClosedFile" "length (pending_display s) < max_pending_display"
  shows "\<exists>s'. on_data_received s label data = Inr s'
     \<and> shared_log_file s' \<noteq> Some ClosedFile
     \<and> length (pending_display s') < max_pending_display
     \<and> concat (displayed s') @ concat (pending_display s')
          = concat (displayed s) @ concat (pending_display s) @ data"
proof -
  from assms(2) have k: "keep_newest max_pending_display (pending_display s @ [data])
      = pending_display s @ [data]"
    by (simp add: keep_newest_def)
  from on_data_received_effect[OF assms(1), of label data] obtain s' where s':
    "on_data_received s label data = Inr s'" "shared_log_file s' \<noteq> Some ClosedFile"
    "if 1000 \<le> length (pending_display s @ [data])
         then pending_display s' = []
            \<and> displayed s' = displayed s @ [concat (pending_display s @ [data])]
         else pending_display s' = pending_display s @ [data]
            \<and> displayed s' = displayed s"
    unfolding k by blast
  from s'(3) assms(2) queue_limits(2) have "length (pending_display s') < max_pending_display"
    by (auto split: if_splits)
  moreover from s'(3) have "concat (displayed s') @ concat (pending_display s')
          = concat (displayed s) @ concat (pending_display s) @ data"
    by (auto split: if_splits)
  ultimately show ?thesis using s'(1,2) by blast
qed

lemma enqueue_all_bounded:
  assumes "shared_log_file s \<noteq> Some ClosedFile"
  shows "\<exists>s'. enqueue_all s items = Inr s'
     \<and> shared_log_file s' \<noteq> Some ClosedFile
     \<and> (items \<noteq> [] \<longrightarrow> length (pending_display s') \<le> max_pending_display)"
  using assms
proof (induction items arbitrary: s)
  case Nil
  then show ?case by simp
next
  case (Cons i items)
  obtain l d where i: "i = (l, d)" by (cases i)
  from on_data_received_bounded[OF Cons.prems, of l d] obtain s1 where s1:
    "on_data_received s l d = Inr s1" "shared_log_file s1 \<noteq> Some ClosedFile"
    "length (pending_display s1) \<le> max_pending_display" by blast
  from Cons.IH[OF s1(2)] obtain s2 where s2: "enqueue_all s1 items = Inr s2"
    "shared_log_file s2 \<noteq> Some ClosedFile"
    "items \<noteq> [] \<longrightarrow> length (pending_display s2) \<le> max_pending_display" by blast
  show ?case
  proof (cases "items = []")
    case True
    with s1 show ?thesis by (simp add: i)
  next
    case False
    with s1(1) s2 show ?thesis by (simp add: i)
  qed
qed

lemma enqueue_all_keeps_all:
  assumes "shared_log_file s \<noteq> Some ClosedFile" "length (pending_display s) < max_pending_display"
  shows "\<exists>s'. enqueue_all s items = Inr s'
     \<and> concat (displayed s') @ concat (pending_display s')
          = concat (displayed s) @ concat (pending_display s) @ concat (map snd items)"
  using assms
proof (induction items arbitrary: s)
  case Nil
  then show ?case by simp
next
  case (Cons i items)
  obtain l d where i: "i = (l, d)" by (cases i)
  from on_data_received_keeps_all[OF Cons.prems, of l d] obtain s1 where s1:
    "on_data_received s l d = Inr s1" "shared_log_file s1 \<noteq> Some ClosedFile"
    "length (pending_display s1) < max_pending_display"
    "concat (displayed s1) @ concat (pending_display s1)
          = concat (displayed s) @ concat (pending_display s) @ d" by blast
  from Cons.IH[OF s1(2,3)] obtain s2 where s2: "enqueue_all s1 items = Inr s2"
    "concat (displayed s2) @ concat (pending_display s2)
          = concat (displayed s1) @ concat (pending_display s1) @ concat (map snd items)" by blast
  from s2(2) s1(4) have "concat (displayed s2) @ concat (pending_display s2)
      = concat (displayed s) @ concat (pending_display s) @ d @ concat (map snd items)"
    by (metis append.assoc)
  with s1(1) s2(1) show ?case by (simp add: i)
qed

text \<open>
  C9. Every call of \<open>on_data_received\<close> on a coordinator whose log file, if any, is open
  returns and leaves at most \<open>max_pending_display\<close> entries in the display queue: the
  queue is the newest \<open>max_pending_display\<close> entries of the old queue followed by the new
  entry, so the entries dropped are the oldest and the new entry is always among those
  kept; with 1000 entries or more the queue is handed to the display at once, as one
  chunk, and is empty afterwards. So the bound holds after every call of every sequence
  of calls; and from a queue below the bound, as every call leaves it, no entry is lost:
  what has been displayed, followed by the queue, grows by exactly the entries received.
\<close>

theorem display_queue_bounded:
  "(\<forall>s label data. shared_log_file s \<noteq> Some ClosedFile \<longrightarrow>
      (\<exists>s'. on_data_received s label data = Inr s'
         \<and> length (pending_display s') \<le> max_pending_display
         \<and> (let kept = keep_newest max_pending_display (pending_display s @ [data]) in
               kept \<noteq> [] \<and> last kept = data \<and> length kept \<le> max_pending_display
               \<and> (if 1000 \<le> length kept
                   then pending_display s' = [] \<and> displayed s' = displayed s @ [concat kept]
                   else pending_display s' = kept \<and> displayed s' = displayed s))))
   \<and> (\<forall>s items. shared_log_file s \<noteq> Some ClosedFile \<longrightarrow>
      (\<exists>s'. enqueue_all s items = Inr s'
         \<and> (items \<noteq> [] \<longrightarrow> length (pending_display s') \<le> max_pending_display)))
   \<and> (\<forall>s items. shared_log_file s \<noteq> Some ClosedFile
         \<and> length (pending_display s) < max_pending_display \<longrightarrow>
      (\<exists>s'. enqueue_all s items = Inr s'
         \<and> concat (displayed s') @ concat (pending_display s')
              = concat (displayed s) @ concat (pending_display s) @ concat (map snd items)))"
proof (intro conjI allI impI)
  fix s :: sniffer and label data
  assume a: "shared_log_file s \<noteq> Some ClosedFile"
  let ?k = "keep_newest max_pending_display (pending_display s @ [data])"
  from on_data_received_effect[OF a, of label data] obtain s' where s':
    "on_data_received s label data = Inr s'"
    "if 1000 \<le> length ?k
         then pending_display s' = [] \<and> displayed s' = displayed s @ [concat ?k]
         else pending_display s' = ?k \<and> displayed s' = displayed s"
    by blast
  from on_data_received_bounded[OF a, of label data] s'(1)
  have b: "length (pending_display s') \<le> max_pending_display" by auto
  from kept_newest[OF queue_limits(1), of "pending_display s" data] s' b
  show "\<exists>s'. on_data_received s label data = Inr s'
         \<and> length (pending_display s') \<le> max_pending_display
         \<and> (let kept = keep_newest max_pending_display (pending_display s @ [data]) in
               kept \<noteq> [] \<and> last kept = data \<and> length kept \<le> max_pending_display
               \<and> (if 1000 \<le> length kept
                   then pending_display s' = [] \<and> displayed s' = displayed s @ [concat kept]
                   else pending_display s' = kept \<and> displayed s' = displayed s))"
    unfolding Let_def by blast
next
  fix s :: sniffer and items :: "(string \<times> string) list"
  assume "shared_log_file s \<noteq> Some ClosedFile"
  from enqueue_all_bounded[OF this, of items]
  show "\<exists>s'. enqueue_all s items = Inr s'
         \<and> (items \<noteq> [] \<longrightarrow> length (pending_display s') \<le> max_pending_display)"
    by blast
next
  fix s :: sniffer and items :: "(string \<times> string) list"
  assume "shared_log_file s \<noteq> Some ClosedFile
         \<and> length (pending_display s) < max_pending_display"
  then show "\<exists>s'. enqueue_all s items = Inr s'
         \<and> concat (displayed s') @ concat (pending_display s')
              = concat (displayed s) @ concat (pending_display s) @ concat (map snd items)"
    using enqueue_all_keeps_all[of s items] by simp
qed

text \<open>
  The witness: a queue that holds \<open>max_pending_display\<close> entries already receives one
  more, so that the oldest entry is dropped and the rest is displayed at once; and two
  entries received by an idle coordinator wait in the queue.
\<close>

theorem display_queue_bounded_witness:
  "shared_log_file (idle_sniffer\<lparr>pending_display := replicate max_pending_display ''x''\<rparr>)
       \<noteq> Some ClosedFile
   \<and> (\<exists>s'. on_data_received (idle_sniffer\<lparr>pending_display := replicate max_pending_display ''x''\<rparr>)
              ''RX1'' ''new'' = Inr s'
         \<and> pending_display s' = []
         \<and> displayed s' = [concat (replicate (max_pending_display - 1) ''x'' @ [''new''])])
   \<and> shared_log_file idle_sniffer \<noteq> Some ClosedFile
   \<and> length (pending_display idle_sniffer) < max_pending_display
   \<and> (\<exists>s'. enqueue_all idle_sniffer [(''RX1'', ''a''), (''RX2'', ''b'')] = Inr s'
         \<and> length (pending_display s') \<le> max_pending_display
         \<and> concat (displayed s') @ concat (pending_display s') = ''ab'')"
proof -
  note step = display_queue_bounded[THEN conjunct1, rule_format]
  note bound = display_queue_bounded[THEN conjunct2, THEN conjunct1, rule_format]
  note all = display_queue_bounded[THEN conjunct2, THEN conjunct2, rule_format]
  let ?full = "idle_sniffer\<lparr>pending_display := replicate max_pending_display ''x''\<rparr>"
  let ?items = "[(''RX1'', ''a''), (''RX2'', ''b'')]"
  have h1: "shared_log_file ?full \<noteq> Some ClosedFile" by (simp add: idle_sniffer_def)
  have k: "keep_newest max_pending_display (pending_display ?full @ [''new''])
      = replicate (max_pending_display - 1) ''x'' @ [''new'']"
    using keep_newest_full[OF queue_limits(1)] by simp
  have l: "1000 \<le> length (replicate (max_pending_display - 1) ''x'' @ [''new''])"
    using queue_limits by simp
  have d: "displayed ?full = []" by (simp add: displayed_def idle_sniffer_def)
  from step[OF h1, of "''RX1''" "''new''"]
  have one: "\<exists>s'. on_data_received ?full ''RX1'' ''new'' = Inr s'
         \<and> pending_display s' = []
         \<and> displayed s' = [concat (replicate (max_pending_display - 1) ''x'' @ [''new''])]"
    unfolding Let_def k using l by (auto simp: d)
  have h2: "shared_log_file idle_sniffer \<noteq> Some ClosedFile"
    "length (pending_display idle_sniffer) < max_pending_display"
    using queue_limits(1) by (simp_all add: idle_sniffer_def)
  from all[of idle_sniffer ?items] h2 obtain s' where s':
    "enqueue_all idle_sniffer ?items = Inr s'"
    "concat (displayed s') @ concat (pending_display s')
       = concat (displayed idle_sniffer) @ concat (pending_display idle_sniffer)
         @ concat (map snd ?items)" by blast
  from bound[OF h2(1), of ?items] s'(1)
  have b: "length (pending_display s') \<le> max_pending_display" by auto
  from s'(2) have "concat (displayed s') @ concat (pending_display s') = ''ab''"
    by (simp add: displayed_def idle_sniffer_def)
  with s'(1) b have two: "\<exists>s'. enqueue_all idle_sniffer ?items = Inr s'
         \<and> length (pending_display s') \<le> max_pending_display
         \<and> concat (displayed s') @ concat (pending_display s') = ''ab''" by blast
  from h1 one h2 two show ?thesis by blast
qed

end
